theory Spec2Isabelle
  imports Main "HOL-Library.Word" "HOL-Library.Sublist"
begin

section \<open>The piece-to-slot storage engine (storage.cpp)\<close>

text \<open>
  A shallow embedding of \<^verbatim>\<open>src/storage.cpp\<close>: the class \<^verbatim>\<open>storage\<close>, which reads and
  writes slots of the concatenated payload files, and \<^verbatim>\<open>piece_manager::impl\<close>, which keeps
  the piece/slot tables. Integers of the source are \<open>int\<close>. Where \<^verbatim>\<open>storage::read\<close> and
  \<^verbatim>\<open>storage::write\<close> put a \<^verbatim>\<open>size_type\<close> given by the caller into an \<^verbatim>\<open>int\<close>, the
  conversion is written out (\<open>to_int\<close> below). The locks (\<^verbatim>\<open>slot_lock\<close>, the mutexes,
  \<^verbatim>\<open>m_allocating\<close>) and the progress value have no sequential content and are left out;
  the bounds of the vectors they index are kept.
\<close>

subsection \<open>Errors\<close>

text \<open>
  \<open>AssertionFailed\<close>: an \<^verbatim>\<open>assert\<close> of the source fails (only when assertions are compiled
  in, the flag \<open>dbg\<close> of every operation).
  \<open>OutOfBounds\<close>: a vector is indexed outside its range or an iterator is used at or past
  the end (undefined behaviour in C++, made a result here).
  \<open>OutOfMemory\<close>: a loop that only grows a vector and cannot end.
  \<open>Overflow\<close>: the sum of two \<^verbatim>\<open>int\<close> is outside the range of \<^verbatim>\<open>int\<close> (undefined behaviour
  as well).
\<close>

datatype error = AssertionFailed | OutOfBounds | OutOfMemory | Overflow

definition expect :: "bool \<Rightarrow> bool \<Rightarrow> error + 'a \<Rightarrow> error + 'a" where
  "expect dbg c k = (if dbg \<and> \<not> c then Inl AssertionFailed else k)"

definition at :: "'a list \<Rightarrow> int \<Rightarrow> error + 'a" where
  "at xs i = (if 0 \<le> i \<and> i < int (length xs) then Inr (xs ! nat i) else Inl OutOfBounds)"

definition put :: "'a list \<Rightarrow> int \<Rightarrow> 'a \<Rightarrow> error + 'a list" where
  "put xs i v = (if 0 \<le> i \<and> i < int (length xs) then Inr (xs[nat i := v]) else Inl OutOfBounds)"

text \<open>
  \<^verbatim>\<open>size_type\<close> is \<^verbatim>\<open>entry::integer_type\<close>, 64 bits wide, and \<^verbatim>\<open>int\<close> is 32 bits wide.
  \<open>to_int\<close> is the initialisation of an \<^verbatim>\<open>int\<close> from a \<^verbatim>\<open>size_type\<close>: the value is kept
  when it fits and is reduced modulo \<open>2\<^sup>3\<^sup>2\<close> into the range of \<^verbatim>\<open>int\<close> otherwise.
  \<open>int_add\<close> is \<^verbatim>\<open>+=\<close> on an \<^verbatim>\<open>int\<close>.
\<close>

definition to_int :: "int \<Rightarrow> int" where
  "to_int x = (x + 2147483648) mod 4294967296 - 2147483648"

definition int_add :: "int \<Rightarrow> int \<Rightarrow> error + int" where
  "int_add a b =
     (if - 2147483648 \<le> a + b \<and> a + b < 2147483648 then Inr (a + b) else Inl Overflow)"

subsection \<open>torrent_info and the payload files\<close>

type_synonym byte = "8 word"
type_synonym sha1_hash = "byte list"

text \<open>
  Modelled from the spec: \<^verbatim>\<open>torrent_info\<close> and the entries of its file list, a relative
  path and a size each (torrent_info.hpp is not among the sources). \<^verbatim>\<open>storage.cpp\<close> calls
  \<^verbatim>\<open>piece_length\<close>, \<^verbatim>\<open>num_pieces\<close>, \<^verbatim>\<open>total_size\<close>, \<^verbatim>\<open>hash_for_piece\<close> and
  \<^verbatim>\<open>piece_size\<close>, walks the file list from \<^verbatim>\<open>begin_files\<close> to \<^verbatim>\<open>end_files\<close>, and reads
  the members \<^verbatim>\<open>path\<close>, \<^verbatim>\<open>filename\<close> and \<^verbatim>\<open>size\<close> of an entry. \<open>path\<close> holds the
  names of the directories from \<^verbatim>\<open>save_path\<close> down to the directory of the file,
  \<open>filename\<close> the name of the file in it.
\<close>

record file_entry =
  path :: "string list"
  filename :: string
  file_size :: int

record torrent_info =
  piece_length :: int
  num_pieces :: int
  total_size :: int
  hash_for_piece :: "int \<Rightarrow> sha1_hash"
  files :: "file_entry list"

text \<open>
  Modelled from the spec: \<^verbatim>\<open>torrent_info::piece_size\<close> (torrent_info.hpp and its
  implementation are not among the sources). The spec gives \<open>piece_length\<close> for
  \<open>i < N - 1\<close> and otherwise the last piece's size, where
  \<open>total_size = (N - 1) * piece_length + last_piece_size\<close>.
\<close>

definition last_piece_size :: "torrent_info \<Rightarrow> int" where
  "last_piece_size ti = total_size ti - (num_pieces ti - 1) * piece_length ti"

definition piece_size :: "torrent_info \<Rightarrow> int \<Rightarrow> int" where
  "piece_size ti i = (if i < num_pieces ti - 1 then piece_length ti else last_piece_size ti)"

text \<open>
  The file system below \<^verbatim>\<open>save_path\<close>. \<open>dirs\<close> holds the directories that exist, each one
  as the list of the names from \<^verbatim>\<open>save_path\<close> down to it. \<open>contents\<close> gives the bytes of the
  file at \<^verbatim>\<open>save_path / path / filename\<close>, or \<open>None\<close> when there is no such file.
\<close>

type_synonym file_map = "string list \<times> string \<Rightarrow> byte list option"

record disk =
  dirs :: "string list set"
  contents :: file_map

definition file_key :: "file_entry \<Rightarrow> string list \<times> string" where
  "file_key f = (path f, filename f)"

text \<open>\<^verbatim>\<open>fs::create_directories\<close>: the directory and every directory above it exist afterwards.\<close>

definition create_directories :: "string list \<Rightarrow> disk \<Rightarrow> disk" where
  "create_directories p d = d\<lparr>dirs := dirs d \<union> set (prefixes p)\<rparr>"

subsection \<open>storage::read and storage::write\<close>

text \<open>The search for the file that holds a byte offset (the first loop of both).\<close>

fun find_file :: "file_entry list \<Rightarrow> int \<Rightarrow> error + (file_entry list \<times> int)" where
  "find_file [] file_offset = Inl OutOfBounds"
| "find_file (f # fs) file_offset =
     (if file_offset < file_size f then Inr (f # fs, file_offset)
      else find_file fs (file_offset - file_size f))"

text \<open>
  \<^verbatim>\<open>in.read(p, n)\<close> on a stream opened on a file and positioned at \<open>pos\<close>: the bytes it
  delivers (\<^verbatim>\<open>gcount\<close> is their number). A stream whose file is missing, or whose seek
  failed, delivers nothing, and so does a count \<open>n\<close> that is not positive.
\<close>

definition istream_read :: "byte list option \<Rightarrow> int \<Rightarrow> int \<Rightarrow> byte list" where
  "istream_read c pos n =
     (case c of None \<Rightarrow> []
      | Some bs \<Rightarrow> if pos < 0 then [] else take (nat n) (drop (nat pos) bs))"

text \<open>Copying bytes into a buffer at \<open>buf + pos\<close>; past the end of the buffer it is undefined.\<close>

definition store :: "byte list \<Rightarrow> int \<Rightarrow> byte list \<Rightarrow> error + byte list" where
  "store buf pos bs =
     (if bs = [] then Inr buf
      else if 0 \<le> pos \<and> pos + int (length bs) \<le> int (length buf)
      then Inr (take (nat pos) buf @ bs @ drop (nat pos + length bs) buf)
      else Inl OutOfBounds)"

text \<open>
  The \<open>n\<close> bytes at \<open>buf + pos\<close> handed to \<^verbatim>\<open>out.write\<close>; with a count that is not
  positive nothing is read.
\<close>

definition fetch :: "byte list \<Rightarrow> int \<Rightarrow> int \<Rightarrow> error + byte list" where
  "fetch buf pos n =
     (if n \<le> 0 then Inr []
      else if 0 \<le> pos \<and> pos + n \<le> int (length buf)
      then Inr (take (nat n) (drop (nat pos) buf))
      else Inl OutOfBounds)"

text \<open>
  Lines 281 to 284 and 335 to 338: \<^verbatim>\<open>out.open\<close>. A file that exists is opened for reading
  and writing (\<^verbatim>\<open>std::ios_base::in\<close> is added to the mode) and is not truncated. A file
  that is missing is created empty when its directory exists; \<^verbatim>\<open>storage::write\<close> creates
  no directory, so that otherwise the stream fails and there is still no file.
\<close>

definition ofstream_open :: "string list set \<Rightarrow> file_map \<Rightarrow> file_entry \<Rightarrow> file_map" where
  "ofstream_open ds c f =
     (if c (file_key f) = None \<and> path f \<in> ds then c(file_key f \<mapsto> []) else c)"

text \<open>
  The bytes of a file \<open>old\<close> after \<^verbatim>\<open>seekp(pos)\<close> and \<^verbatim>\<open>write\<close> of the bytes \<open>bs\<close>: a gap
  between the old end and \<open>pos\<close> reads as zero.
\<close>

definition ostream_write :: "byte list \<Rightarrow> int \<Rightarrow> byte list \<Rightarrow> byte list" where
  "ostream_write old pos bs =
     (if bs = [] then old
      else take (nat pos) old @ replicate (nat pos - length old) 0 @ bs
           @ drop (nat pos + length bs) old)"

text \<open>
  \<^verbatim>\<open>out.write(buf + buf_pos, n)\<close> on the stream opened on the file \<open>f\<close> and positioned
  at \<open>pos\<close>. A stream that failed to open or to seek writes nothing and does not read
  the buffer.
\<close>

definition ofstream_write ::
  "file_map \<Rightarrow> file_entry \<Rightarrow> int \<Rightarrow> byte list \<Rightarrow> int \<Rightarrow> int \<Rightarrow> error + file_map"
where
  "ofstream_write c f pos buf buf_pos n =
     (case c (file_key f) of
        None \<Rightarrow> Inr c
      | Some old \<Rightarrow>
          if pos < 0 then Inr c
          else (case fetch buf buf_pos n of
                  Inl e \<Rightarrow> Inl e
                | Inr bs \<Rightarrow> Inr (c(file_key f \<mapsto> ostream_write old pos bs))))"

text \<open>
  The \<^verbatim>\<open>while (left_to_read > 0)\<close> loop of \<^verbatim>\<open>storage::read\<close>. Each pass reads from one file
  and then moves to the next one, so the loop is a recursion over the files from
  \<^verbatim>\<open>file_iter\<close> on. \<^verbatim>\<open>read_bytes\<close>, \<^verbatim>\<open>actual_read\<close> and \<^verbatim>\<open>buf_pos\<close> are \<^verbatim>\<open>int\<close>.
\<close>

fun read_loop ::
  "bool \<Rightarrow> file_map \<Rightarrow> file_entry list \<Rightarrow> int \<Rightarrow> byte list \<Rightarrow> int \<Rightarrow> int \<Rightarrow> error + byte list"
where
  "read_loop dbg c [] file_offset buf buf_pos left_to_read =
     (if left_to_read > 0 then Inl OutOfBounds else Inr buf)"
| "read_loop dbg c (f # fs) file_offset buf buf_pos left_to_read =
     (if left_to_read > 0 then
        (let read_bytes =
               (if file_offset + to_int left_to_read > file_size f
                then to_int (file_size f - file_offset) else to_int left_to_read);
             got = istream_read (c (file_key f)) file_offset read_bytes;
             actual_read = to_int (int (length got))
         in expect dbg (read_bytes > 0)
              (case store buf buf_pos got of
                 Inl e \<Rightarrow> Inl e
               | Inr buf' \<Rightarrow>
                   expect dbg (read_bytes = actual_read)
                     (case int_add buf_pos read_bytes of
                        Inl e \<Rightarrow> Inl e
                      | Inr buf_pos' \<Rightarrow>
                          expect dbg (buf_pos' \<ge> 0)
                            (read_loop dbg c fs 0 buf' buf_pos'
                               (left_to_read - read_bytes)))))
      else Inr buf)"

text \<open>
  \<^verbatim>\<open>storage::read\<close>. The result is the pair of the returned count and the buffer; the
  count is the \<^verbatim>\<open>int result\<close> of line 221, set from \<^verbatim>\<open>left_to_read\<close> before the loop.
  \<^verbatim>\<open>tellg\<close> answers \<open>-1\<close> on a stream that failed to open or to seek. (The assertion of
  line 207 repeats the test that ended the search for the file.)
\<close>

definition storage_read ::
  "bool \<Rightarrow> torrent_info \<Rightarrow> disk \<Rightarrow> byte list \<Rightarrow> int \<Rightarrow> int \<Rightarrow> int \<Rightarrow> error + (int \<times> byte list)"
where
  "storage_read dbg ti d buf slot offset sz =
     expect dbg (sz > 0)
       (if slot < 0 \<or> num_pieces ti \<le> slot then Inl OutOfBounds
        else case find_file (files ti) (slot * piece_length ti + offset) of
          Inl e \<Rightarrow> Inl e
        | Inr (fs, file_offset) \<Rightarrow>
            (let tellg = (if contents d (file_key (hd fs)) = None \<or> file_offset < 0 then -1
                          else file_offset);
                 slot_size = piece_size ti slot;
                 left_to_read = (if offset + sz > slot_size then slot_size - offset else sz)
             in expect dbg (tellg = file_offset)
                  (expect dbg (left_to_read \<ge> 0)
                     (case read_loop dbg (contents d) fs file_offset buf 0 left_to_read of
                        Inl e \<Rightarrow> Inl e
                      | Inr buf' \<Rightarrow> Inr (to_int left_to_read, buf')))))"

text \<open>
  The \<^verbatim>\<open>while (left_to_write > 0)\<close> loop of \<^verbatim>\<open>storage::write\<close>, over the files from
  \<^verbatim>\<open>file_iter\<close> on. \<open>ds\<close> are the directories that exist. The stream is open on the
  first file when the loop starts and is opened on each following file when the loop
  reaches it; opening the same file again changes nothing. \<^verbatim>\<open>write_bytes\<close> and
  \<^verbatim>\<open>buf_pos\<close> are \<^verbatim>\<open>int\<close>.
\<close>

fun write_loop ::
  "bool \<Rightarrow> string list set \<Rightarrow> file_map \<Rightarrow> file_entry list \<Rightarrow> int \<Rightarrow> byte list \<Rightarrow> int \<Rightarrow> int
     \<Rightarrow> error + file_map"
where
  "write_loop dbg ds c [] file_offset buf buf_pos left_to_write =
     (if left_to_write > 0 then Inl (if dbg then AssertionFailed else OutOfBounds)
      else Inr c)"
| "write_loop dbg ds c (f # fs) file_offset buf buf_pos left_to_write =
     (if left_to_write > 0 then
        (let over = (file_offset + to_int left_to_write > file_size f);
             write_bytes = (if over then to_int (file_size f - file_offset)
                            else to_int left_to_write)
         in expect dbg (over \<longrightarrow> file_size f > file_offset)
              (expect dbg (buf_pos \<ge> 0)
                 (expect dbg (write_bytes > 0)
                    (case ofstream_write (ofstream_open ds c f) f file_offset
                            buf buf_pos write_bytes of
                       Inl e \<Rightarrow> Inl e
                     | Inr c' \<Rightarrow>
                         (case int_add buf_pos write_bytes of
                            Inl e \<Rightarrow> Inl e
                          | Inr buf_pos' \<Rightarrow>
                              expect dbg (buf_pos' \<ge> 0)
                                (expect dbg (file_offset + write_bytes \<le> file_size f)
                                   (write_loop dbg ds c' fs 0 buf buf_pos'
                                      (left_to_write - write_bytes))))))))
      else Inr c)"

text \<open>
  \<^verbatim>\<open>storage::write\<close>. The first file is opened before the loop. \<^verbatim>\<open>tellp\<close> answers \<open>-1\<close>
  on a stream that failed to open or to seek. (The assertion of line 286 repeats the test
  that ended the search for the file.)
\<close>

definition storage_write ::
  "bool \<Rightarrow> torrent_info \<Rightarrow> disk \<Rightarrow> byte list \<Rightarrow> int \<Rightarrow> int \<Rightarrow> int \<Rightarrow> error + disk"
where
  "storage_write dbg ti d buf slot offset sz =
     expect dbg (sz > 0)
       (if slot < 0 \<or> num_pieces ti \<le> slot then Inl OutOfBounds
        else case find_file (files ti) (slot * piece_length ti + offset) of
          Inl e \<Rightarrow> Inl e
        | Inr (fs, file_offset) \<Rightarrow>
            (let c = ofstream_open (dirs d) (contents d) (hd fs);
                 tellp = (if c (file_key (hd fs)) = None \<or> file_offset < 0 then -1
                          else file_offset);
                 slot_size = piece_size ti slot;
                 left_to_write = (if offset + sz > slot_size then slot_size - offset else sz)
             in expect dbg (file_offset = tellp)
                  (expect dbg (left_to_write \<ge> 0)
                     (case write_loop dbg (dirs d) c fs file_offset buf 0 left_to_write of
                        Inl e \<Rightarrow> Inl e
                      | Inr c' \<Rightarrow> Inr (d\<lparr>contents := c'\<rparr>)))))"

subsection \<open>piece_manager::impl\<close>

text \<open>
  The members of \<^verbatim>\<open>piece_manager::impl\<close> that the code reads or writes. \<open>m_storage\<close>
  stands for the file system below \<^verbatim>\<open>m_save_path\<close>, which the member \<^verbatim>\<open>m_storage\<close> reaches.
  \<^verbatim>\<open>m_have_piece\<close> is never used by the code; the bitmask of the pieces is the vector
  \<^verbatim>\<open>pieces\<close> that the caller hands to \<^verbatim>\<open>check_pieces\<close>.
\<close>

record piece_manager =
  m_storage :: disk
  m_bytes_left :: int
  m_piece_to_slot :: "int list"
  m_unallocated_slots :: "int list"
  m_free_slots :: "int list"
  m_slot_to_piece :: "int list"

text \<open>
  The members as the constructor leaves them: every vector is empty. (\<^verbatim>\<open>m_bytes_left\<close>
  is not initialised by the source; \<^verbatim>\<open>check_pieces\<close> sets it before any use.)
\<close>

definition impl :: "disk \<Rightarrow> piece_manager" where
  "impl d = \<lparr>m_storage = d, m_bytes_left = 0, m_piece_to_slot = [],
             m_unallocated_slots = [], m_free_slots = [], m_slot_to_piece = []\<rparr>"

text \<open>
  The constructor of \<^verbatim>\<open>piece_manager\<close>. It constructs the member \<^verbatim>\<open>m_storage\<close>, and
  the constructor of \<^verbatim>\<open>storage\<close> asserts that the torrent has a file.
\<close>

definition piece_manager_new :: "bool \<Rightarrow> torrent_info \<Rightarrow> disk \<Rightarrow> error + piece_manager" where
  "piece_manager_new dbg ti d = expect dbg (files ti \<noteq> []) (Inr (impl d))"

fun check_invariant_loop :: "bool \<Rightarrow> piece_manager \<Rightarrow> int list \<Rightarrow> error + unit" where
  "check_invariant_loop dbg pm [] = Inr ()"
| "check_invariant_loop dbg pm (i # rest) =
     (case at (m_piece_to_slot pm) i of
        Inl e \<Rightarrow> Inl e
      | Inr s \<Rightarrow>
          (case at (m_slot_to_piece pm) i of
             Inl e \<Rightarrow> Inl e
           | Inr p \<Rightarrow>
               expect dbg (s \<noteq> i \<and> s \<ge> 0 \<longrightarrow> p = -1)
                 (expect dbg (p = -2 \<longrightarrow> i \<in> set (m_free_slots pm))
                    (check_invariant_loop dbg pm rest))))"

definition check_invariant :: "bool \<Rightarrow> torrent_info \<Rightarrow> piece_manager \<Rightarrow> error + unit" where
  "check_invariant dbg ti pm = check_invariant_loop dbg pm [0..num_pieces ti - 1]"

text \<open>
  One pass of the loop of \<^verbatim>\<open>allocate_slots\<close>, for the slot \<open>pos\<close>. The buffer
  \<^verbatim>\<open>zeros\<close> is created once, before the loop, and is handed from pass to pass.
\<close>

definition allocate_one ::
  "bool \<Rightarrow> torrent_info \<Rightarrow> piece_manager \<times> byte list \<Rightarrow> int \<Rightarrow> error + (piece_manager \<times> byte list)"
where
  "allocate_one dbg ti st pos =
     (case st of (pm, zeros) \<Rightarrow>
      case at (m_piece_to_slot pm) pos of
        Inl e \<Rightarrow> Inl e
      | Inr src \<Rightarrow>
          (case (if src \<noteq> -1 then
                   expect dbg (src \<ge> 0)
                     (case storage_read dbg ti (m_storage pm) zeros src 0 (piece_size ti pos) of
                        Inl e \<Rightarrow> Inl e
                      | Inr (_, zeros') \<Rightarrow>
                          (case put (m_slot_to_piece pm) pos pos of
                             Inl e \<Rightarrow> Inl e
                           | Inr s2p \<Rightarrow>
                               (case put (m_piece_to_slot pm) pos pos of
                                  Inl e \<Rightarrow> Inl e
                                | Inr p2s \<Rightarrow>
                                    Inr (pm\<lparr>m_slot_to_piece := s2p, m_piece_to_slot := p2s\<rparr>,
                                         zeros', src))))
                 else Inr (pm, zeros, pos)) of
             Inl e \<Rightarrow> Inl e
           | Inr (pm1, zeros1, new_free_slot) \<Rightarrow>
               (case put (m_slot_to_piece pm1) new_free_slot (-2) of
                  Inl e \<Rightarrow> Inl e
                | Inr s2p \<Rightarrow>
                    (case storage_write dbg ti (m_storage pm1) zeros1 pos 0 (piece_size ti pos) of
                       Inl e \<Rightarrow> Inl e
                     | Inr d \<Rightarrow>
                         Inr (pm1\<lparr>m_slot_to_piece := s2p,
                                  m_free_slots := m_free_slots pm1 @ [new_free_slot],
                                  m_storage := d\<rparr>, zeros1)))))"

fun allocate_loop ::
  "bool \<Rightarrow> torrent_info \<Rightarrow> piece_manager \<times> byte list \<Rightarrow> int list \<Rightarrow> error + (piece_manager \<times> byte list)"
where
  "allocate_loop dbg ti st [] = Inr st"
| "allocate_loop dbg ti st (pos # rest) =
     (case allocate_one dbg ti st pos of
        Inl e \<Rightarrow> Inl e
      | Inr st' \<Rightarrow> allocate_loop dbg ti st' rest)"

definition allocate_slots :: "bool \<Rightarrow> torrent_info \<Rightarrow> piece_manager \<Rightarrow> int \<Rightarrow> error + piece_manager" where
  "allocate_slots dbg ti pm num_slots =
     (case check_invariant dbg ti pm of
        Inl e \<Rightarrow> Inl e
      | Inr _ \<Rightarrow>
          (let drained = take (nat num_slots) (m_unallocated_slots pm) in
           case allocate_loop dbg ti (pm, replicate (nat (piece_length ti)) 0) drained of
             Inl e \<Rightarrow> Inl e
           | Inr (pm1, _) \<Rightarrow>
               (let pm2 = pm1\<lparr>m_unallocated_slots :=
                                drop (length drained) (m_unallocated_slots pm1)\<rparr> in
                case check_invariant dbg ti pm2 of
                  Inl e \<Rightarrow> Inl e
                | Inr _ \<Rightarrow> Inr pm2)))"

text \<open>
  \<^verbatim>\<open>slot_for_piece\<close>, lines 706 to 731: the choice of the free slot and its removal from
  \<^verbatim>\<open>m_free_slots\<close>. \<^verbatim>\<open>std::find\<close> gives the first occurrence of \<open>piece_index\<close>;
  otherwise the iterator is \<^verbatim>\<open>end() - 1\<close>, which does not exist in an empty vector.
\<close>

definition choose_slot ::
  "bool \<Rightarrow> torrent_info \<Rightarrow> piece_manager \<Rightarrow> int \<Rightarrow> error + (piece_manager \<times> int)"
where
  "choose_slot dbg ti pm piece_index =
     (if piece_index \<in> set (m_free_slots pm)
      then Inr (pm\<lparr>m_free_slots := remove1 piece_index (m_free_slots pm)\<rparr>, piece_index)
      else
        (case (if dbg then at (m_slot_to_piece pm) piece_index else Inr 0) of
           Inl e \<Rightarrow> Inl e
         | Inr v \<Rightarrow>
             expect dbg (v \<noteq> -2)
               (if m_free_slots pm = [] then Inl OutOfBounds
                else if last (m_free_slots pm) = num_pieces ti - 1
                        \<and> piece_index \<noteq> last (m_free_slots pm)
                then
                  (case (if length (m_free_slots pm) = 1 then allocate_slots dbg ti pm 5
                         else Inr pm) of
                     Inl e \<Rightarrow> Inl e
                   | Inr pm1 \<Rightarrow>
                       expect dbg (length (m_free_slots pm1) > 1)
                         (if m_free_slots pm1 = [] then Inl OutOfBounds
                          else Inr (pm1\<lparr>m_free_slots := butlast (m_free_slots pm1)\<rparr>,
                                    last (m_free_slots pm1))))
                else Inr (pm\<lparr>m_free_slots := butlast (m_free_slots pm)\<rparr>,
                          last (m_free_slots pm)))))"

text \<open>
  Lines 743 to 775: another piece \<open>piece_at_our_slot\<close> is in the slot of the same index
  as the piece; its bytes are copied to the chosen slot and the entries of the two tables
  are swapped. \<open>s2p\<close> and \<open>p2s\<close> are the tables after lines 735 and 736.
\<close>

definition swap_pieces ::
  "bool \<Rightarrow> torrent_info \<Rightarrow> piece_manager \<Rightarrow> int list \<Rightarrow> int list \<Rightarrow> int \<Rightarrow> int \<Rightarrow> int
     \<Rightarrow> error + (piece_manager \<times> int)"
where
  "swap_pieces dbg ti pm s2p p2s piece_index slot_index piece_at_our_slot =
     (case storage_read dbg ti (m_storage pm) (replicate (nat (piece_length ti)) 0)
             piece_index 0 (piece_length ti) of
        Inl e \<Rightarrow> Inl e
      | Inr (_, buf) \<Rightarrow>
          (case storage_write dbg ti (m_storage pm) buf slot_index 0 (piece_length ti) of
             Inl e \<Rightarrow> Inl e
           | Inr d \<Rightarrow>
               (case at p2s piece_at_our_slot of
                  Inl e \<Rightarrow> Inl e
                | Inr other \<Rightarrow>
                    Inr (pm\<lparr>m_storage := d,
                            m_slot_to_piece :=
                              s2p[nat piece_index := s2p ! nat slot_index,
                                  nat slot_index := s2p ! nat piece_index],
                            m_piece_to_slot :=
                              p2s[nat piece_index := other,
                                  nat piece_at_our_slot := p2s ! nat piece_index]\<rparr>,
                         piece_index))))"

text \<open>
  Lines 733 to 780: the two tables are updated, the pieces are swapped on a collision, and
  the invariant is checked.
\<close>

definition assign_slot ::
  "bool \<Rightarrow> torrent_info \<Rightarrow> piece_manager \<Rightarrow> int \<Rightarrow> int \<Rightarrow> error + (piece_manager \<times> int)"
where
  "assign_slot dbg ti pm piece_index slot_index =
     (case (if dbg then at (m_slot_to_piece pm) slot_index else Inr (-2)) of
        Inl e \<Rightarrow> Inl e
      | Inr v \<Rightarrow>
     expect dbg (v = -2)
       (case put (m_slot_to_piece pm) slot_index piece_index of
          Inl e \<Rightarrow> Inl e
        | Inr s2p \<Rightarrow>
       (case put (m_piece_to_slot pm) piece_index slot_index of
          Inl e \<Rightarrow> Inl e
        | Inr p2s \<Rightarrow>
       (case at s2p piece_index of
          Inl e \<Rightarrow> Inl e
        | Inr piece_at_our_slot \<Rightarrow>
            (case (if slot_index \<noteq> piece_index \<and> piece_at_our_slot \<ge> 0
                   then swap_pieces dbg ti pm s2p p2s piece_index slot_index piece_at_our_slot
                   else Inr (pm\<lparr>m_slot_to_piece := s2p, m_piece_to_slot := p2s\<rparr>,
                             slot_index)) of
               Inl e \<Rightarrow> Inl e
             | Inr (pm', slot) \<Rightarrow>
                 (case check_invariant dbg ti pm' of
                    Inl e \<Rightarrow> Inl e
                  | Inr _ \<Rightarrow> Inr (pm', slot)))))))"

definition slot_for_piece ::
  "bool \<Rightarrow> torrent_info \<Rightarrow> piece_manager \<Rightarrow> int \<Rightarrow> error + (piece_manager \<times> int)"
where
  "slot_for_piece dbg ti pm piece_index =
     (case check_invariant dbg ti pm of
        Inl e \<Rightarrow> Inl e
      | Inr _ \<Rightarrow>
     expect dbg (0 \<le> piece_index \<and> piece_index < int (length (m_piece_to_slot pm)))
       (expect dbg (length (m_piece_to_slot pm) = length (m_slot_to_piece pm))
          (case at (m_piece_to_slot pm) piece_index of
             Inl e \<Rightarrow> Inl e
           | Inr slot_index \<Rightarrow>
               if slot_index \<noteq> -1 then
                 expect dbg (slot_index \<ge> 0)
                   (expect dbg (slot_index < int (length (m_slot_to_piece pm)))
                      (Inr (pm, slot_index)))
               else
                 (case (if m_free_slots pm = [] then allocate_slots dbg ti pm 5 else Inr pm) of
                    Inl e \<Rightarrow> Inl e
                  | Inr pm1 \<Rightarrow>
                      expect dbg (m_free_slots pm1 \<noteq> [])
                        (case choose_slot dbg ti pm1 piece_index of
                           Inl e \<Rightarrow> Inl e
                         | Inr (pm2, chosen) \<Rightarrow> assign_slot dbg ti pm2 piece_index chosen)))))"

text \<open>\<^verbatim>\<open>piece_manager::impl::read\<close> and \<^verbatim>\<open>write\<close>.\<close>

definition piece_manager_read ::
  "bool \<Rightarrow> torrent_info \<Rightarrow> piece_manager \<Rightarrow> byte list \<Rightarrow> int \<Rightarrow> int \<Rightarrow> int \<Rightarrow> error + (int \<times> byte list)"
where
  "piece_manager_read dbg ti pm buf piece_index offset sz =
     (case at (m_piece_to_slot pm) piece_index of
        Inl e \<Rightarrow> Inl e
      | Inr slot \<Rightarrow>
          expect dbg (slot \<ge> 0) (storage_read dbg ti (m_storage pm) buf slot offset sz))"

definition piece_manager_write ::
  "bool \<Rightarrow> torrent_info \<Rightarrow> piece_manager \<Rightarrow> byte list \<Rightarrow> int \<Rightarrow> int \<Rightarrow> int \<Rightarrow> error + piece_manager"
where
  "piece_manager_write dbg ti pm buf piece_index offset sz =
     (case slot_for_piece dbg ti pm piece_index of
        Inl e \<Rightarrow> Inl e
      | Inr (pm1, slot) \<Rightarrow>
          (case storage_write dbg ti (m_storage pm1) buf slot offset sz of
             Inl e \<Rightarrow> Inl e
           | Inr d \<Rightarrow> Inr (pm1\<lparr>m_storage := d\<rparr>)))"

subsection \<open>check_pieces\<close>

text \<open>
  The local variables of \<^verbatim>\<open>check_pieces\<close> that live across the passes of its loop,
  with the manager and the caller's vector \<^verbatim>\<open>pieces\<close>. The stream \<^verbatim>\<open>in\<close> is the content
  of the file it was opened on (\<open>None\<close> when the file could not be opened) and its read
  position. \<open>abort_reads\<close> holds the values of \<^verbatim>\<open>data.abort\<close> that the coming passes will
  see (another thread sets it); once the list is used up the flag reads false.
\<close>

record check_state =
  mgr :: piece_manager
  pieces :: "bool list"
  file_iter :: "file_entry list"
  changed_file :: bool
  in_file :: "byte list option"
  in_pos :: int
  piece_data :: "byte list"
  piece_offset :: int
  current_slot :: int
  bytes_to_read :: int
  bytes_current_read :: int
  seek_into_next :: int
  filesize :: int
  start_of_read :: int
  start_of_file :: int
  abort_reads :: "bool list"

text \<open>Lines 519 to 524: the directory of the file is created when it does not exist.\<close>

definition create_path :: "file_entry \<Rightarrow> check_state \<Rightarrow> check_state" where
  "create_path f cs =
     (if path f \<in> dirs (m_storage (mgr cs)) then cs
      else cs\<lparr>mgr := (mgr cs)\<lparr>m_storage :=
                  create_directories (path f) (m_storage (mgr cs))\<rparr>\<rparr>)"

text \<open>Lines 528 to 548: the stream is reopened after a change of file.\<close>

definition open_next :: "file_entry \<Rightarrow> check_state \<Rightarrow> check_state" where
  "open_next f cs =
     (if changed_file cs then
        (let c = contents (m_storage (mgr cs)) (file_key f) in
         cs\<lparr>changed_file := False, in_file := c,
            bytes_current_read := seek_into_next cs,
            filesize := (case c of None \<Rightarrow> 0 | Some bs \<Rightarrow> int (length bs)),
            in_pos := seek_into_next cs\<rparr>)
      else cs)"

text \<open>
  Lines 576 to 582: every slot that starts before the end of the file goes to
  \<^verbatim>\<open>m_unallocated_slots\<close>. With a piece length that is not positive the loop of the
  source cannot end: the assertion stops it when assertions are on, the growth of the
  vector otherwise.
\<close>

function skip_loop ::
  "bool \<Rightarrow> torrent_info \<Rightarrow> int \<Rightarrow> int \<Rightarrow> int list \<Rightarrow> int \<Rightarrow> error + (int \<times> int list \<times> int)"
where
  "skip_loop dbg ti file_end pos unallocated cur =
     (if pos < file_end then
        (if piece_length ti \<le> 0 then Inl (if dbg then AssertionFailed else OutOfMemory)
         else expect dbg (cur + 1 \<le> num_pieces ti)
                (skip_loop dbg ti file_end (pos + piece_length ti) (unallocated @ [cur])
                   (cur + 1)))
      else Inr (pos, unallocated, cur))"
  by pat_completeness auto
termination
  by (relation "measure (\<lambda>(dbg, ti, file_end, pos, unallocated, cur). nat (file_end - pos))")
     auto

declare skip_loop.simps [simp del]

text \<open>Lines 569 to 598: the piece is not complete and the scan goes on with the next file.\<close>

definition next_file ::
  "bool \<Rightarrow> torrent_info \<Rightarrow> file_entry \<Rightarrow> file_entry list \<Rightarrow> check_state \<Rightarrow> int \<Rightarrow> error + check_state"
where
  "next_file dbg ti f rest cs bytes_read =
     (case (if bytes_current_read cs \<noteq> file_size f then
              (let file_end = start_of_file cs + file_size f in
               case skip_loop dbg ti file_end (start_of_read cs)
                      (m_unallocated_slots (mgr cs)) (current_slot cs) of
                 Inl e \<Rightarrow> Inl e
               | Inr (pos, unallocated, cur) \<Rightarrow>
                   Inr (cs\<lparr>mgr := (mgr cs)\<lparr>m_unallocated_slots := unallocated\<rparr>,
                           current_slot := cur, seek_into_next := pos - file_end,
                           bytes_to_read := piece_size ti cur, piece_offset := 0\<rparr>))
            else Inr (cs\<lparr>seek_into_next := 0, piece_offset := piece_offset cs + bytes_read\<rparr>)) of
        Inl e \<Rightarrow> Inl e
      | Inr cs' \<Rightarrow>
          Inr (cs'\<lparr>changed_file := True, start_of_file := start_of_file cs + file_size f,
                  file_iter := rest\<rparr>))"

text \<open>
  Lines 611 to 622: the candidates \<open>i\<close> from \<^verbatim>\<open>current_slot\<close> up to the last piece. The
  last piece is compared with the digest of the short prefix, the others with the digest of
  the whole buffer.
\<close>

fun find_piece ::
  "torrent_info \<Rightarrow> bool list \<Rightarrow> int \<Rightarrow> sha1_hash \<Rightarrow> sha1_hash \<Rightarrow> int list \<Rightarrow> int \<Rightarrow> error + int"
where
  "find_piece ti have cur large_digest small_digest [] found_piece = Inr found_piece"
| "find_piece ti have cur large_digest small_digest (i # rest) found_piece =
     (case at have i of
        Inl e \<Rightarrow> Inl e
      | Inr h \<Rightarrow>
          if h \<and> i \<noteq> cur then find_piece ti have cur large_digest small_digest rest found_piece
          else find_piece ti have cur large_digest small_digest rest
                 (if (if i = num_pieces ti - 1 then small_digest else large_digest)
                     = hash_for_piece ti i
                  then i else found_piece))"

text \<open>Lines 624 to 640: a piece was found for the slot.\<close>

definition record_found ::
  "bool \<Rightarrow> torrent_info \<Rightarrow> check_state \<Rightarrow> int \<Rightarrow> error + check_state"
where
  "record_found dbg ti cs found_piece =
     (let pm = mgr cs in
      case at (pieces cs) found_piece of
        Inl e \<Rightarrow> Inl e
      | Inr h \<Rightarrow>
     (case (if h then
              (case at (m_piece_to_slot pm) found_piece of
                 Inl e \<Rightarrow> Inl e
               | Inr old \<Rightarrow>
                   expect dbg (old \<noteq> -1)
                     (case put (m_slot_to_piece pm) old (-2) of
                        Inl e \<Rightarrow> Inl e
                      | Inr s2p \<Rightarrow>
                          Inr (pm\<lparr>m_slot_to_piece := s2p,
                                  m_free_slots := m_free_slots pm @ [old]\<rparr>)))
            else Inr (pm\<lparr>m_bytes_left := m_bytes_left pm - piece_size ti found_piece\<rparr>)) of
        Inl e \<Rightarrow> Inl e
      | Inr pm1 \<Rightarrow>
     (case put (m_piece_to_slot pm1) found_piece (current_slot cs) of
        Inl e \<Rightarrow> Inl e
      | Inr p2s \<Rightarrow>
     (case put (m_slot_to_piece pm1) (current_slot cs) found_piece of
        Inl e \<Rightarrow> Inl e
      | Inr s2p \<Rightarrow>
     (case put (pieces cs) found_piece True of
        Inl e \<Rightarrow> Inl e
      | Inr have \<Rightarrow>
          Inr (cs\<lparr>mgr := pm1\<lparr>m_piece_to_slot := p2s, m_slot_to_piece := s2p\<rparr>,
                  pieces := have\<rparr>))))))"

text \<open>Lines 641 to 651: no piece matches, the slot is free.\<close>

definition record_free :: "check_state \<Rightarrow> error + check_state" where
  "record_free cs =
     (let pm = mgr cs in
      case put (m_slot_to_piece pm) (current_slot cs) (-2) of
        Inl e \<Rightarrow> Inl e
      | Inr s2p \<Rightarrow>
          Inr (cs\<lparr>mgr := pm\<lparr>m_slot_to_piece := s2p,
                            m_free_slots := m_free_slots pm @ [current_slot cs]\<rparr>\<rparr>))"

text \<open>
  Lines 604 to 657: the buffer holds a whole piece. \<open>sha1\<close> is the digest function
  (\<^verbatim>\<open>hasher::update\<close> followed by \<^verbatim>\<open>hasher::final\<close>), a parameter of the model: only its
  declaration is among the sources. \<^verbatim>\<open>lazy_hash\<close> computes each of the two digests at most
  once from the same bytes, so each is a value here.
\<close>

definition hash_slot ::
  "(byte list \<Rightarrow> sha1_hash) \<Rightarrow> bool \<Rightarrow> torrent_info \<Rightarrow> check_state \<Rightarrow> error + check_state"
where
  "hash_slot sha1 dbg ti cs =
     (let large_digest = sha1 (take (nat (piece_length ti)) (piece_data cs));
          small_digest = sha1 (take (nat (piece_size ti (num_pieces ti - 1))) (piece_data cs))
      in case find_piece ti (pieces cs) (current_slot cs) large_digest small_digest
                [current_slot cs..num_pieces ti - 1] (-1) of
           Inl e \<Rightarrow> Inl e
         | Inr found_piece \<Rightarrow>
             (case (if found_piece \<noteq> -1 then record_found dbg ti cs found_piece
                    else record_free cs) of
                Inl e \<Rightarrow> Inl e
              | Inr cs' \<Rightarrow>
                  Inr (cs'\<lparr>piece_offset := 0, current_slot := current_slot cs + 1,
                          bytes_to_read := piece_size ti (current_slot cs + 1)\<rparr>)))"

text \<open>Lines 550 to 553: a new piece starts here.\<close>

definition mark_start :: "torrent_info \<Rightarrow> check_state \<Rightarrow> check_state" where
  "mark_start ti cs =
     (if bytes_to_read cs = piece_size ti (current_slot cs)
      then cs\<lparr>start_of_read := current_slot cs * piece_length ti\<rparr> else cs)"

text \<open>
  Lines 555 to 564: the next bytes of the piece are read into \<^verbatim>\<open>piece_data\<close>. The
  result carries \<^verbatim>\<open>bytes_read\<close>.
\<close>

definition fill_buffer :: "check_state \<Rightarrow> error + (check_state \<times> int)" where
  "fill_buffer cs =
     (let got = (if filesize cs > 0
                 then istream_read (in_file cs) (in_pos cs) (bytes_to_read cs) else [])
      in case store (piece_data cs) (piece_offset cs) got of
           Inl e \<Rightarrow> Inl e
         | Inr data \<Rightarrow>
             Inr (cs\<lparr>piece_data := data, in_pos := in_pos cs + int (length got),
                     bytes_current_read := bytes_current_read cs + int (length got),
                     bytes_to_read := bytes_to_read cs - int (length got)\<rparr>,
                  int (length got)))"

definition read_piece_data ::
  "torrent_info \<Rightarrow> file_entry \<Rightarrow> check_state \<Rightarrow> error + (check_state \<times> int)"
where
  "read_piece_data ti f cs = fill_buffer (mark_start ti (open_next f (create_path f cs)))"

text \<open>One pass of the loop over the files, for the file \<open>f\<close> at \<^verbatim>\<open>file_iter\<close>.\<close>

definition check_body ::
  "(byte list \<Rightarrow> sha1_hash) \<Rightarrow> bool \<Rightarrow> torrent_info \<Rightarrow> file_entry \<Rightarrow> file_entry list \<Rightarrow> check_state
     \<Rightarrow> error + check_state"
where
  "check_body sha1 dbg ti f rest cs0 =
     expect dbg (current_slot cs0 \<le> num_pieces ti)
       (case read_piece_data ti f cs0 of
          Inl e \<Rightarrow> Inl e
        | Inr (cs3, bytes_read) \<Rightarrow>
            if bytes_to_read cs3 > 0 then next_file dbg ti f rest cs3 bytes_read
            else hash_slot sha1 dbg ti cs3)"

function check_loop ::
  "(byte list \<Rightarrow> sha1_hash) \<Rightarrow> bool \<Rightarrow> torrent_info \<Rightarrow> check_state \<Rightarrow> error + (bool \<times> check_state)"
where
  "check_loop sha1 dbg ti cs =
     (case file_iter cs of
        [] \<Rightarrow> Inr (False, cs)
      | f # rest \<Rightarrow>
          if abort_reads cs \<noteq> [] \<and> hd (abort_reads cs) then Inr (True, cs)
          else (case check_body sha1 dbg ti f rest (cs\<lparr>abort_reads := tl (abort_reads cs)\<rparr>) of
                  Inl e \<Rightarrow> Inl e
                | Inr cs' \<Rightarrow> check_loop sha1 dbg ti cs'))"
  by pat_completeness auto
termination
proof (relation "measures [\<lambda>(sha1, dbg, ti, cs). length (file_iter cs),
         \<lambda>(sha1, dbg, ti, cs). nat (int (length (m_slot_to_piece (mgr cs))) - current_slot cs)]",
       goal_cases)
  case 1
  then show ?case by simp
next
  case (2 sha1 dbg ti cs f rest cs')
  define cs0 where "cs0 = cs\<lparr>abort_reads := tl (abort_reads cs)\<rparr>"
  have cs0: "file_iter cs0 = f # rest" "current_slot cs0 = current_slot cs" "mgr cs0 = mgr cs"
    using 2(1) by (simp_all add: cs0_def)
  from 2(3) obtain cs3 n where
    r: "fill_buffer (mark_start ti (open_next f (create_path f cs0))) = Inr (cs3, n)"
    and k: "(if bytes_to_read cs3 > 0 then next_file dbg ti f rest cs3 n
             else hash_slot sha1 dbg ti cs3) = Inr cs'"
    by (auto simp: check_body_def read_piece_data_def expect_def cs0_def
             split: sum.splits if_splits)
  define cs2 where "cs2 = mark_start ti (open_next f (create_path f cs0))"
  have cs2: "file_iter cs2 = file_iter cs0" "current_slot cs2 = current_slot cs0"
    "m_slot_to_piece (mgr cs2) = m_slot_to_piece (mgr cs0)"
    by (simp_all add: cs2_def mark_start_def open_next_def create_path_def Let_def)
  from r obtain data m where "cs3 = cs2\<lparr>piece_data := data, in_pos := in_pos cs2 + m,
                     bytes_current_read := bytes_current_read cs2 + m,
                     bytes_to_read := bytes_to_read cs2 - m\<rparr>"
    unfolding fill_buffer_def Let_def cs2_def [symmetric]
    by (cases "store (piece_data cs2) (piece_offset cs2)
      (if filesize cs2 > 0 then istream_read (in_file cs2) (in_pos cs2) (bytes_to_read cs2)
       else [])") auto
  then have cs3: "file_iter cs3 = f # rest" "current_slot cs3 = current_slot cs"
    "m_slot_to_piece (mgr cs3) = m_slot_to_piece (mgr cs)"
    by (simp_all add: cs2 cs0)
  show ?case
  proof (cases "bytes_to_read cs3 > 0")
    case True
    with k have "next_file dbg ti f rest cs3 n = Inr cs'" by simp
    then have "file_iter cs' = rest"
      by (auto simp: next_file_def Let_def split: sum.splits if_splits)
    with 2(1) show ?thesis by simp
  next
    case False
    with k have "hash_slot sha1 dbg ti cs3 = Inr cs'" by simp
    then have "file_iter cs' = file_iter cs3 \<and> current_slot cs' = current_slot cs3 + 1
         \<and> 0 \<le> current_slot cs3
         \<and> current_slot cs3 < int (length (m_slot_to_piece (mgr cs3)))
         \<and> length (m_slot_to_piece (mgr cs')) = length (m_slot_to_piece (mgr cs3))"
      by (auto simp: hash_slot_def record_found_def record_free_def put_def at_def expect_def
           Let_def split: sum.splits if_splits)
    with cs3 2(1) show ?thesis by simp
  qed
qed

declare check_loop.simps [simp del]

text \<open>
  \<^verbatim>\<open>check_pieces\<close>. \<^verbatim>\<open>resize\<close> cuts or fills the two tables to \<open>num_pieces\<close> entries. The
  result is the manager and the vector \<^verbatim>\<open>pieces\<close>; the return on \<^verbatim>\<open>data.abort\<close> skips
  the final \<^verbatim>\<open>check_invariant\<close>.
\<close>

definition resize :: "'a list \<Rightarrow> nat \<Rightarrow> 'a \<Rightarrow> 'a list" where
  "resize xs n v = take n xs @ replicate (n - length xs) v"

definition check_start :: "torrent_info \<Rightarrow> piece_manager \<Rightarrow> bool list \<Rightarrow> bool list \<Rightarrow> check_state" where
  "check_start ti pm have aborts =
     \<lparr>mgr = pm\<lparr>m_piece_to_slot := resize (m_piece_to_slot pm) (nat (num_pieces ti)) (-1),
                m_slot_to_piece := resize (m_slot_to_piece pm) (nat (num_pieces ti)) (-1),
                m_bytes_left := total_size ti\<rparr>,
      pieces = have, file_iter = files ti, changed_file = True, in_file = None, in_pos = 0,
      piece_data = replicate (nat (piece_length ti)) 0, piece_offset = 0, current_slot = 0,
      bytes_to_read = piece_length ti, bytes_current_read = 0, seek_into_next = 0,
      filesize = 0, start_of_read = 0, start_of_file = 0, abort_reads = aborts\<rparr>"

definition check_pieces ::
  "(byte list \<Rightarrow> sha1_hash) \<Rightarrow> bool \<Rightarrow> torrent_info \<Rightarrow> piece_manager \<Rightarrow> bool list \<Rightarrow> bool list
     \<Rightarrow> error + (piece_manager \<times> bool list)"
where
  "check_pieces sha1 dbg ti pm have aborts =
     (case check_loop sha1 dbg ti (check_start ti pm have aborts) of
        Inl e \<Rightarrow> Inl e
      | Inr (aborted, cs) \<Rightarrow>
          if aborted then Inr (mgr cs, pieces cs)
          else (case check_invariant dbg ti (mgr cs) of
                  Inl e \<Rightarrow> Inl e
                | Inr _ \<Rightarrow> Inr (mgr cs, pieces cs)))"

subsection \<open>The byte address space of the files\<close>

text \<open>
  The position of the byte \<open>v\<close> of the concatenated files: the file that holds it and
  the offset in that file. It follows the search of \<open>find_file\<close>. \<open>byte_at\<close> is the byte
  stored there, if the file exists and is long enough.
\<close>

fun locate :: "file_entry list \<Rightarrow> int \<Rightarrow> ((string list \<times> string) \<times> int) option" where
  "locate [] v = None"
| "locate (f # fs) v =
     (if v < file_size f then Some (file_key f, v) else locate fs (v - file_size f))"

definition byte_at :: "file_map \<Rightarrow> file_entry list \<Rightarrow> int \<Rightarrow> byte option" where
  "byte_at c fs v =
     (case locate fs v of
        None \<Rightarrow> None
      | Some (key, pos) \<Rightarrow>
          (case c key of
             None \<Rightarrow> None
           | Some bs \<Rightarrow> if 0 \<le> pos \<and> pos < int (length bs) then Some (bs ! nat pos) else None))"

subsection \<open>Concrete torrents\<close>

text \<open>
  The runs below need a digest function. They use one without collisions, the bytes
  themselves, so that two digests are equal exactly when the hashed bytes are: the expected
  hash of a piece is then given by the bytes of that piece.
\<close>

definition plain_digest :: "byte list \<Rightarrow> sha1_hash" where
  "plain_digest bs = bs"

text \<open>
  Three pieces of length 2, 2 and 1 in three files \<^verbatim>\<open>t/a\<close>, \<^verbatim>\<open>t/b\<close>, \<^verbatim>\<open>t/c\<close>, one file
  for each slot. On disk \<^verbatim>\<open>t/b\<close> is missing and the two other files hold bytes that
  match no piece.
\<close>

definition three_files :: torrent_info where
  "three_files =
     \<lparr>piece_length = 2, num_pieces = 3, total_size = 5,
      hash_for_piece = (\<lambda>i. if i = 0 then [1, 1] else if i = 1 then [2, 2] else [3]),
      files = [\<lparr>path = [''t''], filename = ''a'', file_size = 2\<rparr>,
               \<lparr>path = [''t''], filename = ''b'', file_size = 2\<rparr>,
               \<lparr>path = [''t''], filename = ''c'', file_size = 1\<rparr>]\<rparr>"

definition disk_b_missing :: disk where
  "disk_b_missing =
     \<lparr>dirs = {[], [''t'']},
      contents = [([''t''], ''a'') \<mapsto> [9, 9], ([''t''], ''c'') \<mapsto> [9]]\<rparr>"

text \<open>Running one operation after another, and the four tables of a manager.\<close>

definition and_then :: "error + 'a \<Rightarrow> ('a \<Rightarrow> error + 'b) \<Rightarrow> error + 'b" where
  "and_then r k = (case r of Inl e \<Rightarrow> Inl e | Inr x \<Rightarrow> k x)"

definition tables :: "piece_manager \<Rightarrow> int list \<times> int list \<times> int list \<times> int list" where
  "tables pm = (m_piece_to_slot pm, m_slot_to_piece pm, m_free_slots pm, m_unallocated_slots pm)"

text \<open>
  Three pieces of length 2, 2 and 1 in one file \<^verbatim>\<open>t/a\<close>. The pieces 0 and 1 have the
  same bytes \<open>[1, 1]\<close>, and so the same expected hash; the last piece is \<open>[3]\<close>.
  \<open>disk_twin\<close> holds these bytes once, in slot 0, other bytes in slot 1 and the last
  piece in slot 2. \<open>disk_twin_twice\<close> holds them in slot 0 and in slot 1.
\<close>

definition twin_pieces :: torrent_info where
  "twin_pieces =
     \<lparr>piece_length = 2, num_pieces = 3, total_size = 5,
      hash_for_piece = (\<lambda>i. if i = 0 then [1, 1] else if i = 1 then [1, 1] else [3]),
      files = [\<lparr>path = [''t''], filename = ''a'', file_size = 5\<rparr>]\<rparr>"

definition disk_twin :: disk where
  "disk_twin = \<lparr>dirs = {[], [''t'']}, contents = [([''t''], ''a'') \<mapsto> [1, 1, 5, 5, 3]]\<rparr>"

definition disk_twin_twice :: disk where
  "disk_twin_twice = \<lparr>dirs = {[], [''t'']}, contents = [([''t''], ''a'') \<mapsto> [1, 1, 1, 1, 3]]\<rparr>"

text \<open>The state of \<^verbatim>\<open>check_pieces\<close> when the buffer holds slot 0 of \<open>disk_twin\<close>.\<close>

definition twin_at_slot_0 :: check_state where
  "twin_at_slot_0 =
     (case read_piece_data twin_pieces (hd (files twin_pieces))
             (check_start twin_pieces (impl disk_twin) [False, False, False] []) of
        Inr (cs, n) \<Rightarrow> cs)"

text \<open>The state of \<^verbatim>\<open>check_pieces\<close> when the buffer holds slot 1 of \<open>disk_twin_twice\<close>.\<close>

definition twice_at_slot_1 :: check_state where
  "twice_at_slot_1 =
     (case and_then
             (read_piece_data twin_pieces (hd (files twin_pieces))
                (check_start twin_pieces (impl disk_twin_twice) [False, False, False] []))
             (\<lambda>(cs, n). and_then (hash_slot plain_digest False twin_pieces cs)
                (read_piece_data twin_pieces (hd (files twin_pieces)))) of
        Inr (cs, n) \<Rightarrow> cs)"

text \<open>
  Three pieces of length 2, 2 and 1 in one file \<^verbatim>\<open>t/a\<close>; the bytes of piece 1 are
  \<open>[1, 1]\<close>. On disk the file ends after slot 0, which holds the bytes of piece 1.
\<close>

definition one_file :: torrent_info where
  "one_file =
     \<lparr>piece_length = 2, num_pieces = 3, total_size = 5,
      hash_for_piece = (\<lambda>i. if i = 0 then [7, 7] else if i = 1 then [1, 1] else [3]),
      files = [\<lparr>path = [''t''], filename = ''a'', file_size = 5\<rparr>]\<rparr>"

definition disk_piece_1_first :: disk where
  "disk_piece_1_first = \<lparr>dirs = {[], [''t'']}, contents = [([''t''], ''a'') \<mapsto> [1, 1]]\<rparr>"


definition three_files_checked :: piece_manager where
  "three_files_checked =
     (case check_pieces plain_digest True three_files (impl disk_b_missing)
             [False, False, False] [] of
        Inr (pm, have) \<Rightarrow> pm
      | Inl e \<Rightarrow> impl disk_b_missing)"

subsection \<open>Invariants of the tables\<close>

text \<open>
  The property of claim C2: every piece that has a slot is the piece recorded for that
  slot.
\<close>

definition inverse_consistent :: "piece_manager \<Rightarrow> bool" where
  "inverse_consistent pm \<longleftrightarrow>
     (\<forall>p\<in>set [0..<length (m_piece_to_slot pm)].
        0 \<le> m_piece_to_slot pm ! p \<longrightarrow>
          nat (m_piece_to_slot pm ! p) < length (m_slot_to_piece pm)
          \<and> m_slot_to_piece pm ! nat (m_piece_to_slot pm ! p) = int p)"

text \<open>
  The two tables map into each other: \<open>p2s\<close> holds \<open>-1\<close> or a slot that holds the piece,
  and a slot of \<open>s2p\<close> that is not negative holds a piece that has this slot.
\<close>

definition maps_ok :: "nat \<Rightarrow> int list \<Rightarrow> int list \<Rightarrow> bool" where
  "maps_ok n p2s s2p \<longleftrightarrow>
     length p2s = n \<and> length s2p = n
     \<and> (\<forall>p<n. p2s ! p \<noteq> -1 \<longrightarrow> 0 \<le> p2s ! p \<and> nat (p2s ! p) < n \<and> s2p ! nat (p2s ! p) = int p)
     \<and> (\<forall>s<n. 0 \<le> s2p ! s \<longrightarrow> nat (s2p ! s) < n \<and> p2s ! nat (s2p ! s) = int s)"

text \<open>A list of slots without repetition, all of them marked \<open>v\<close> in \<open>s2p\<close>.\<close>

definition slots_marked :: "int \<Rightarrow> int list \<Rightarrow> int list \<Rightarrow> bool" where
  "slots_marked v s2p slots \<longleftrightarrow>
     distinct slots \<and> (\<forall>s\<in>set slots. 0 \<le> s \<and> (nat s < length s2p \<longrightarrow> s2p ! nat s = v))"

text \<open>
  The invariant of the manager between two operations: the tables map into each other,
  the free slots are in range and marked \<open>-2\<close>, the unallocated slots are marked \<open>-1\<close>.
\<close>

definition tables_ok :: "torrent_info \<Rightarrow> piece_manager \<Rightarrow> bool" where
  "tables_ok ti pm \<longleftrightarrow>
     maps_ok (nat (num_pieces ti)) (m_piece_to_slot pm) (m_slot_to_piece pm)
     \<and> slots_marked (-2) (m_slot_to_piece pm) (m_free_slots pm)
     \<and> (\<forall>s\<in>set (m_free_slots pm). nat s < length (m_slot_to_piece pm))
     \<and> slots_marked (-1) (m_slot_to_piece pm) (m_unallocated_slots pm)"

text \<open>
  The invariant of the loop of \<^verbatim>\<open>check_pieces\<close>: in addition, the slots from
  \<^verbatim>\<open>current_slot\<close> on are untouched, the slots in the two lists are before
  \<^verbatim>\<open>current_slot\<close>, and a piece that has a slot is marked in \<^verbatim>\<open>pieces\<close>.
\<close>

definition scan_ok :: "torrent_info \<Rightarrow> check_state \<Rightarrow> bool" where
  "scan_ok ti cs \<longleftrightarrow>
     tables_ok ti (mgr cs) \<and> 0 \<le> current_slot cs
     \<and> (\<forall>s<length (m_slot_to_piece (mgr cs)).
           current_slot cs \<le> int s \<longrightarrow> m_slot_to_piece (mgr cs) ! s = -1)
     \<and> (\<forall>s\<in>set (m_free_slots (mgr cs)). s < current_slot cs)
     \<and> (\<forall>s\<in>set (m_unallocated_slots (mgr cs)). s < current_slot cs)
     \<and> (\<forall>p<length (m_piece_to_slot (mgr cs)).
           m_piece_to_slot (mgr cs) ! p \<noteq> -1 \<longrightarrow> p < length (pieces cs) \<and> pieces cs ! p)"

text \<open>
  The property of claim C8: the sizes of the pieces that are not marked in \<^verbatim>\<open>pieces\<close>,
  added up.
\<close>

definition missing_bytes :: "torrent_info \<Rightarrow> bool list \<Rightarrow> int" where
  "missing_bytes ti have =
     sum_list (map (\<lambda>p. if have ! p then 0 else piece_size ti (int p))
                 [0..<nat (num_pieces ti)])"

text \<open>
  The managers, with the vector \<^verbatim>\<open>pieces\<close>, that the public operations can produce:
  the constructor, \<^verbatim>\<open>check_pieces\<close> with the vector \<open>have0\<close>, followed by any number of
  \<^verbatim>\<open>write\<close> and \<^verbatim>\<open>allocate_slots\<close> that return. (\<^verbatim>\<open>read\<close> changes neither.)
\<close>

inductive reachable ::
  "(byte list \<Rightarrow> sha1_hash) \<Rightarrow> bool \<Rightarrow> torrent_info \<Rightarrow> bool list \<Rightarrow> piece_manager \<times> bool list \<Rightarrow> bool"
  for sha1 :: "byte list \<Rightarrow> sha1_hash" and dbg :: bool and ti :: torrent_info
    and have0 :: "bool list"
where
  checked:
    "piece_manager_new dbg ti d = Inr pm0
     \<Longrightarrow> check_pieces sha1 dbg ti pm0 have0 aborts = Inr (pm, have)
     \<Longrightarrow> reachable sha1 dbg ti have0 (pm, have)"
| written:
    "reachable sha1 dbg ti have0 (pm, have)
     \<Longrightarrow> piece_manager_write dbg ti pm buf piece_index offset sz = Inr pm'
     \<Longrightarrow> reachable sha1 dbg ti have0 (pm', have)"
| allocated:
    "reachable sha1 dbg ti have0 (pm, have)
     \<Longrightarrow> allocate_slots dbg ti pm num_slots = Inr pm'
     \<Longrightarrow> reachable sha1 dbg ti have0 (pm', have)"

section \<open>Properties\<close>

subsection \<open>Basic facts\<close>

lemma at_Nil: "at [] i = Inl OutOfBounds"
  by (auto simp: at_def)

lemma piece_manager_new_impl:
  assumes "piece_manager_new dbg ti d = Inr pm"
  shows "pm = impl d"
  using assms by (auto simp: piece_manager_new_def expect_def split: if_splits)

lemma check_invariant_impl:
  assumes "0 < num_pieces ti"
  shows "check_invariant dbg ti (impl d) = Inl OutOfBounds"
proof -
  from assms have "[0..num_pieces ti - 1] = 0 # [1..num_pieces ti - 1]"
    by (simp add: upto_rec1)
  then show ?thesis
    by (simp add: check_invariant_def impl_def at_Nil)
qed

subsection \<open>The tables before check_pieces\<close>

text \<open>
  Claim C10. The constructor leaves \<^verbatim>\<open>m_piece_to_slot\<close> and \<^verbatim>\<open>m_slot_to_piece\<close> empty;
  \<^verbatim>\<open>check_pieces\<close> starts by resizing them to \<open>num_pieces\<close> entries \<open>-1\<close>. On the
  manager \<open>pm\<close> as constructed, for a torrent with at least one piece, \<^verbatim>\<open>read\<close>, \<^verbatim>\<open>write\<close>
  and \<^verbatim>\<open>allocate_slots\<close> index a table of length 0, whatever their arguments: the
  lookup is out of bounds (for \<^verbatim>\<open>write\<close> and \<^verbatim>\<open>allocate_slots\<close> it is the first lookup
  of \<^verbatim>\<open>check_invariant\<close>).
\<close>

theorem C10_tables_empty_before_check:
  assumes "0 < num_pieces ti" and "piece_manager_new dbg ti d = Inr pm"
  shows "m_piece_to_slot pm = [] \<and> m_slot_to_piece pm = []
       \<and> m_piece_to_slot (mgr (check_start ti pm have aborts))
           = replicate (nat (num_pieces ti)) (-1)
       \<and> m_slot_to_piece (mgr (check_start ti pm have aborts))
           = replicate (nat (num_pieces ti)) (-1)
       \<and> piece_manager_read dbg ti pm buf p offset sz = Inl OutOfBounds
       \<and> piece_manager_write dbg ti pm buf p offset sz = Inl OutOfBounds
       \<and> allocate_slots dbg ti pm n = Inl OutOfBounds"
proof -
  have pm: "pm = impl d" using piece_manager_new_impl [OF assms(2)] .
  have r: "piece_manager_read dbg ti (impl d) buf p offset sz = Inl OutOfBounds"
    by (simp add: piece_manager_read_def impl_def at_Nil)
  have w: "piece_manager_write dbg ti (impl d) buf p offset sz = Inl OutOfBounds"
    by (simp add: piece_manager_write_def slot_for_piece_def check_invariant_impl [OF assms(1)])
  have a: "allocate_slots dbg ti (impl d) n = Inl OutOfBounds"
    by (simp add: allocate_slots_def check_invariant_impl [OF assms(1)])
  have t: "m_piece_to_slot (mgr (check_start ti (impl d) have aborts))
           = replicate (nat (num_pieces ti)) (-1)"
     "m_slot_to_piece (mgr (check_start ti (impl d) have aborts))
           = replicate (nat (num_pieces ti)) (-1)"
    by (simp_all add: check_start_def impl_def resize_def)
  show ?thesis using r w a t by (simp add: pm impl_def)
qed

theorem C10_witness:
  "0 < num_pieces three_files
   \<and> piece_manager_new True three_files disk_b_missing = Inr (impl disk_b_missing)
   \<and> piece_manager_read True three_files (impl disk_b_missing) [0, 0] 1 0 2 = Inl OutOfBounds
   \<and> piece_manager_write True three_files (impl disk_b_missing) [2, 2] 1 0 2 = Inl OutOfBounds
   \<and> allocate_slots True three_files (impl disk_b_missing) 5 = Inl OutOfBounds"
proof -
  have h: "0 < num_pieces three_files" by (simp add: three_files_def)
  have n: "piece_manager_new True three_files disk_b_missing = Inr (impl disk_b_missing)"
    by (simp add: piece_manager_new_def expect_def three_files_def)
  from C10_tables_empty_before_check [OF h n]
  show ?thesis using h n by simp
qed

subsection \<open>The candidates of a slot\<close>

lemma find_piece_last:
  assumes "find_piece ti have cur large small cands found0 = Inr p"
  shows "p = (let ms = filter (\<lambda>i. (\<not> have ! nat i \<or> i = cur)
                   \<and> (if i = num_pieces ti - 1 then small else large) = hash_for_piece ti i) cands
              in if ms = [] then found0 else last ms)"
  using assms
proof (induction cands arbitrary: found0)
  case Nil
  then show ?case by simp
next
  case (Cons i rest)
  from Cons.prems obtain h where h: "at have i = Inr h"
    by (auto split: sum.splits)
  then have hv: "h = have ! nat i"
    by (auto simp: at_def split: if_splits)
  show ?case
  proof (cases "h \<and> i \<noteq> cur")
    case True
    with Cons.prems h have "find_piece ti have cur large small rest found0 = Inr p" by simp
    from Cons.IH [OF this] True hv show ?thesis by (simp add: Let_def)
  next
    case False
    with Cons.prems h have "find_piece ti have cur large small rest
        (if (if i = num_pieces ti - 1 then small else large) = hash_for_piece ti i
         then i else found0) = Inr p" by simp
    from Cons.IH [OF this] False hv show ?thesis by (auto simp: Let_def)
  qed
qed

lemma record_free_slot:
  assumes "record_free cs = Inr cs'"
  shows "m_slot_to_piece (mgr cs') ! nat (current_slot cs) = -2 \<and> 0 \<le> current_slot cs"
  using assms by (auto simp: record_free_def put_def Let_def split: if_splits)

lemma record_found_slot:
  assumes "record_found dbg ti cs p = Inr cs'"
  shows "m_slot_to_piece (mgr cs') ! nat (current_slot cs) = p \<and> 0 \<le> current_slot cs"
  using assms
  by (auto simp: record_found_def put_def at_def expect_def Let_def split: if_splits sum.splits)

text \<open>
  Claim C4, as amended. When the buffer holds a whole slot, the candidates are the pieces
  from \<^verbatim>\<open>current_slot\<close> up to the last one, in ascending order, without those already
  marked present other than \<^verbatim>\<open>current_slot\<close> itself. The last piece is compared with
  the digest of the short prefix of the buffer, the others with the digest of the whole
  buffer. The loop has no \<^verbatim>\<open>break\<close>: the piece recorded for the slot is the last
  candidate that matches, and the slot is free (\<open>-2\<close>) when none does.
\<close>

theorem C4_last_match_recorded:
  assumes "hash_slot sha1 dbg ti cs = Inr cs'"
  shows "m_slot_to_piece (mgr cs') ! nat (current_slot cs) =
     (let large_digest = sha1 (take (nat (piece_length ti)) (piece_data cs));
          small_digest = sha1 (take (nat (piece_size ti (num_pieces ti - 1))) (piece_data cs));
          ms = filter (\<lambda>i. (\<not> pieces cs ! nat i \<or> i = current_slot cs)
                   \<and> (if i = num_pieces ti - 1 then small_digest else large_digest)
                       = hash_for_piece ti i) [current_slot cs..num_pieces ti - 1]
      in if ms = [] then -2 else last ms)"
proof -
  define large where "large = sha1 (take (nat (piece_length ti)) (piece_data cs))"
  define small where "small = sha1 (take (nat (piece_size ti (num_pieces ti - 1))) (piece_data cs))"
  define ms where "ms = filter (\<lambda>i. (\<not> pieces cs ! nat i \<or> i = current_slot cs)
                   \<and> (if i = num_pieces ti - 1 then small else large)
                       = hash_for_piece ti i) [current_slot cs..num_pieces ti - 1]"
  from assms obtain p cs1 where
    fp: "find_piece ti (pieces cs) (current_slot cs) large small
           [current_slot cs..num_pieces ti - 1] (-1) = Inr p"
    and rec: "(if p \<noteq> -1 then record_found dbg ti cs p else record_free cs) = Inr cs1"
    and cs': "cs' = cs1\<lparr>piece_offset := 0, current_slot := current_slot cs + 1,
                          bytes_to_read := piece_size ti (current_slot cs + 1)\<rparr>"
    unfolding hash_slot_def Let_def large_def [symmetric] small_def [symmetric]
    by (auto split: sum.splits)
  from find_piece_last [OF fp] have p: "p = (if ms = [] then -1 else last ms)"
    by (simp add: ms_def Let_def)
  have slot: "m_slot_to_piece (mgr cs') ! nat (current_slot cs) = (if p \<noteq> -1 then p else -2)"
    and nonneg: "0 \<le> current_slot cs"
    using rec record_free_slot [of cs cs1] record_found_slot [of dbg ti cs p cs1]
    by (auto simp: cs' split: if_splits)
  have "ms \<noteq> [] \<Longrightarrow> last ms \<noteq> -1"
  proof -
    assume "ms \<noteq> []"
    then have "last ms \<in> set ms" by simp
    then have "last ms \<in> set [current_slot cs..num_pieces ti - 1]"
      unfolding ms_def by auto
    with nonneg show ?thesis by auto
  qed
  with p slot have "m_slot_to_piece (mgr cs') ! nat (current_slot cs)
      = (if ms = [] then -2 else last ms)"
    by auto
  then show ?thesis
    by (simp add: Let_def ms_def large_def small_def)
qed

theorem C4_witness:
  "\<exists>cs'. hash_slot plain_digest False twin_pieces twin_at_slot_0 = Inr cs'
     \<and> m_slot_to_piece (mgr cs') ! nat (current_slot twin_at_slot_0) = 1"
proof -
  have "\<not> isl (hash_slot plain_digest False twin_pieces twin_at_slot_0)"
    by code_simp
  then obtain cs' where h: "hash_slot plain_digest False twin_pieces twin_at_slot_0 = Inr cs'"
    by (cases "hash_slot plain_digest False twin_pieces twin_at_slot_0") auto
  have v: "(let large_digest = plain_digest (take (nat (piece_length twin_pieces)) (piece_data twin_at_slot_0));
          small_digest = plain_digest (take (nat (piece_size twin_pieces (num_pieces twin_pieces - 1))) (piece_data twin_at_slot_0));
          ms = filter (\<lambda>i. (\<not> pieces twin_at_slot_0 ! nat i \<or> i = current_slot twin_at_slot_0)
                   \<and> (if i = num_pieces twin_pieces - 1 then small_digest else large_digest)
                       = hash_for_piece twin_pieces i) [current_slot twin_at_slot_0..num_pieces twin_pieces - 1]
      in if ms = [] then -2 else last ms) = (1::int)"
    by code_simp
  from C4_last_match_recorded [OF h] v h show ?thesis by simp
qed

text \<open>
  Claim C4 as stated fails where two candidates match. In \<open>twin_pieces\<close> the pieces 0 and
  1 have the same hash; slot 0 matches both, the first match is piece 0, and the code
  records piece 1 (assertions off; with assertions on the final \<^verbatim>\<open>check_invariant\<close>
  fails on this disk).
\<close>

theorem C4_first_match_counterexample:
  "find_piece twin_pieces [False, False, False] 0 (plain_digest [1, 1]) (plain_digest [1]) [0..2] (-1)
     = Inr 1
   \<and> plain_digest [1, 1] = hash_for_piece twin_pieces 0
   \<and> map_sum id (\<lambda>(pm, have). (tables pm, have))
        (check_pieces plain_digest False twin_pieces (impl disk_twin) [False, False, False] [])
     = Inr (([-1, 0, 2], [1, -2, 2], [1], []), [False, True, True])"
  by code_simp

subsection \<open>A piece found twice\<close>

lemma record_found_effect:
  assumes "record_found dbg ti cs p = Inr cs'"
  shows "(pieces cs ! nat p \<and> m_piece_to_slot (mgr cs) ! nat p < current_slot cs \<longrightarrow>
            m_slot_to_piece (mgr cs') ! nat (m_piece_to_slot (mgr cs) ! nat p) = -2
          \<and> m_free_slots (mgr cs') = m_free_slots (mgr cs) @ [m_piece_to_slot (mgr cs) ! nat p]
          \<and> m_bytes_left (mgr cs') = m_bytes_left (mgr cs))
       \<and> (\<not> pieces cs ! nat p \<longrightarrow>
            m_bytes_left (mgr cs') = m_bytes_left (mgr cs) - piece_size ti p
          \<and> m_free_slots (mgr cs') = m_free_slots (mgr cs))
       \<and> m_piece_to_slot (mgr cs') ! nat p = current_slot cs
       \<and> pieces cs' ! nat p"
proof (cases "pieces cs ! nat p")
  case True
  with assms show ?thesis
    by (auto simp: record_found_def put_def at_def expect_def Let_def
             split: if_splits sum.splits)
next
  case False
  with assms show ?thesis
    by (auto simp: record_found_def put_def at_def expect_def Let_def
             split: if_splits sum.splits)
qed

text \<open>
  Claim C7. In \<^verbatim>\<open>check_pieces\<close>, when the slot \<^verbatim>\<open>current_slot\<close> is matched to the piece
  \<open>p\<close>: if \<open>p\<close> was already marked present, at an earlier slot \<open>s'\<close>, then
  \<^verbatim>\<open>m_slot_to_piece[s']\<close> becomes \<open>-2\<close>, \<open>s'\<close> is pushed at the end of
  \<^verbatim>\<open>m_free_slots\<close> and \<^verbatim>\<open>m_bytes_left\<close> is unchanged; if \<open>p\<close> was not present,
  \<^verbatim>\<open>m_bytes_left\<close> decreases by the size of \<open>p\<close> and no slot is freed. In both cases
  the current slot becomes the slot of \<open>p\<close> and \<open>p\<close> is marked present.
\<close>

theorem C7_duplicate_match_demotes:
  assumes "hash_slot sha1 dbg ti cs = Inr cs'"
    and "m_slot_to_piece (mgr cs') ! nat (current_slot cs) = p" and "0 \<le> p"
  shows "(pieces cs ! nat p \<and> m_piece_to_slot (mgr cs) ! nat p < current_slot cs \<longrightarrow>
            m_slot_to_piece (mgr cs') ! nat (m_piece_to_slot (mgr cs) ! nat p) = -2
          \<and> m_free_slots (mgr cs') = m_free_slots (mgr cs) @ [m_piece_to_slot (mgr cs) ! nat p]
          \<and> m_bytes_left (mgr cs') = m_bytes_left (mgr cs))
       \<and> (\<not> pieces cs ! nat p \<longrightarrow>
            m_bytes_left (mgr cs') = m_bytes_left (mgr cs) - piece_size ti p
          \<and> m_free_slots (mgr cs') = m_free_slots (mgr cs))
       \<and> m_piece_to_slot (mgr cs') ! nat p = current_slot cs
       \<and> pieces cs' ! nat p"
proof -
  from assms(1) obtain q cs1 where
    rec: "(if q \<noteq> -1 then record_found dbg ti cs q else record_free cs) = Inr cs1"
    and cs': "cs' = cs1\<lparr>piece_offset := 0, current_slot := current_slot cs + 1,
                          bytes_to_read := piece_size ti (current_slot cs + 1)\<rparr>"
    unfolding hash_slot_def Let_def by (auto split: sum.splits)
  have same: "mgr cs' = mgr cs1" "pieces cs' = pieces cs1"
    by (simp_all add: cs')
  have "q \<noteq> -1"
  proof
    assume "q = -1"
    with rec have "record_free cs = Inr cs1" by simp
    from record_free_slot [OF this] assms(2,3) same show False by simp
  qed
  with rec have r: "record_found dbg ti cs q = Inr cs1" by simp
  from record_found_slot [OF r] assms(2) same have "q = p" by simp
  with record_found_effect [OF r] same show ?thesis by simp
qed

theorem C7_witness:
  "\<exists>cs'. hash_slot plain_digest True twin_pieces twice_at_slot_1 = Inr cs'
     \<and> m_slot_to_piece (mgr cs') ! nat (current_slot twice_at_slot_1) = 1
     \<and> pieces twice_at_slot_1 ! nat 1
     \<and> m_piece_to_slot (mgr twice_at_slot_1) ! nat 1 = 0 \<and> current_slot twice_at_slot_1 = 1
     \<and> m_slot_to_piece (mgr cs') ! nat 0 = -2
     \<and> m_free_slots (mgr cs') = [0]
     \<and> m_bytes_left (mgr cs') = m_bytes_left (mgr twice_at_slot_1)
     \<and> m_piece_to_slot (mgr cs') ! nat 1 = 1"
proof -
  have "\<not> isl (hash_slot plain_digest True twin_pieces twice_at_slot_1)"
    by code_simp
  then obtain cs' where h: "hash_slot plain_digest True twin_pieces twice_at_slot_1 = Inr cs'"
    by (cases "hash_slot plain_digest True twin_pieces twice_at_slot_1") auto
  have s: "(case hash_slot plain_digest True twin_pieces twice_at_slot_1 of
              Inl e \<Rightarrow> 0 | Inr cs' \<Rightarrow> m_slot_to_piece (mgr cs') ! nat (current_slot twice_at_slot_1))
           = 1"
    by code_simp
  with h have s': "m_slot_to_piece (mgr cs') ! nat (current_slot twice_at_slot_1) = 1"
    by simp
  have v: "pieces twice_at_slot_1 ! nat 1" "m_piece_to_slot (mgr twice_at_slot_1) ! nat 1 = 0"
    "current_slot twice_at_slot_1 = 1" "m_free_slots (mgr twice_at_slot_1) = []"
    by code_simp+
  have z: "(0::int) \<le> 1" by simp
  from C7_duplicate_match_demotes [OF h s' z] v h s' show ?thesis by simp
qed

subsection \<open>The last slot\<close>

text \<open>
  Claim C1 on the code. In \<open>three_files\<close> the file of slot 1 is missing and the files of
  the slots 0 and 2 match no piece, so that \<^verbatim>\<open>check_pieces\<close> leaves
  \<^verbatim>\<open>m_free_slots = [0, 2]\<close> and \<^verbatim>\<open>m_unallocated_slots = [1]\<close>. Then
  \<^verbatim>\<open>slot_for_piece(1)\<close> finds two free slots, the last of them the last slot: the
  special case of lines 719 to 727 allocates nothing and takes \<^verbatim>\<open>end() - 1\<close> again. Piece
  1 gets slot 2, the short last slot, with assertions on and off.
\<close>

theorem C1_last_slot_handed_out:
  "and_then (check_pieces plain_digest True three_files (impl disk_b_missing)
               [False, False, False] [])
     (\<lambda>(pm, have). map_sum id (\<lambda>(pm', slot). (slot, tables pm'))
        (slot_for_piece True three_files pm 1))
     = Inr (2, ([-1, 2, -1], [-2, -1, 1], [0], [1]))
   \<and> and_then (check_pieces plain_digest False three_files (impl disk_b_missing)
               [False, False, False] [])
     (\<lambda>(pm, have). map_sum id (\<lambda>(pm', slot). (slot, tables pm'))
        (slot_for_piece False three_files pm 1))
     = Inr (2, ([-1, 2, -1], [-2, -1, 1], [0], [1]))"
  by code_simp

text \<open>
  Claim C3 on the code, on the same torrent. \<^verbatim>\<open>write\<close> of the two bytes \<open>[2, 2]\<close> of
  piece 1 returns, and \<^verbatim>\<open>read\<close> of the same range then returns 1 and leaves the second
  byte of the buffer as it was: the piece was put in the last slot, which holds one byte.
\<close>

theorem C3_write_then_read_differs:
  "and_then (check_pieces plain_digest True three_files (impl disk_b_missing)
               [False, False, False] [])
     (\<lambda>(pm, have). and_then (piece_manager_write True three_files pm [2, 2] 1 0 2)
        (\<lambda>pm'. piece_manager_read True three_files pm' [7, 7] 1 0 2))
     = Inr (1, [2, 7])
   \<and> and_then (check_pieces plain_digest False three_files (impl disk_b_missing)
               [False, False, False] [])
     (\<lambda>(pm, have). and_then (piece_manager_write False three_files pm [2, 2] 1 0 2)
        (\<lambda>pm'. piece_manager_read False three_files pm' [7, 7] 1 0 2))
     = Inr (1, [2, 7])"
  by code_simp

subsection \<open>What storage::read returns\<close>

lemma to_int_id:
  assumes "- 2147483648 \<le> x" and "x < 2147483648"
  shows "to_int x = x"
proof -
  have "(x + 2147483648) mod 4294967296 = x + 2147483648"
    using assms by (intro mod_pos_pos_trivial) simp_all
  then show ?thesis by (simp add: to_int_def)
qed

lemma to_int_range: "- 2147483648 \<le> to_int x \<and> to_int x < 2147483648"
  using pos_mod_bound [of 4294967296 "x + 2147483648"]
    pos_mod_sign [of 4294967296 "x + 2147483648"]
  by (simp add: to_int_def)

lemma to_int_decomp: "\<exists>k. x = to_int x + k * 4294967296"
proof -
  have "x + 2147483648
        = (x + 2147483648) div 4294967296 * 4294967296 + (x + 2147483648) mod 4294967296"
    by simp
  then have "x = to_int x + (x + 2147483648) div 4294967296 * 4294967296"
    unfolding to_int_def by linarith
  then show ?thesis by blast
qed

lemma to_int_decomp_pos:
  assumes "0 \<le> x"
  shows "\<exists>k. 0 \<le> k \<and> x = to_int x + k * 4294967296"
proof -
  from to_int_decomp [of x] obtain k where k: "x = to_int x + k * 4294967296" by blast
  have "0 \<le> k"
  proof (rule ccontr)
    assume "\<not> 0 \<le> k"
    then have "k * 4294967296 \<le> - 4294967296" by simp
    with k to_int_range [of x] assms show False by linarith
  qed
  with k show ?thesis by blast
qed

lemma to_int_le:
  assumes "0 \<le> x"
  shows "to_int x \<le> x"
proof -
  from to_int_decomp_pos [OF assms] obtain k where "0 \<le> k" "x = to_int x + k * 4294967296"
    by blast
  then show ?thesis by simp
qed

lemma to_int_idle: "to_int (x - to_int x) = 0"
proof -
  from to_int_decomp [of x] obtain k where "x = to_int x + k * 4294967296" by blast
  then have "x - to_int x = k * 4294967296" by simp
  then show ?thesis by (simp add: to_int_def)
qed

lemma int_add_Inr:
  assumes "int_add a b = Inr c"
  shows "c = a + b"
  using assms by (auto simp: int_add_def split: if_splits)

lemma store_length:
  assumes "store buf pos bs = Inr buf'"
  shows "length buf' = length buf"
  using assms by (auto simp: store_def split: if_splits)

lemma store_nth:
  assumes "store buf pos bs = Inr buf'" and "j < length buf"
  shows "buf' ! j = (if pos \<le> int j \<and> int j < pos + int (length bs)
                     then bs ! nat (int j - pos) else buf ! j)"
proof (cases "bs = []")
  case True
  with assms show ?thesis by (auto simp: store_def)
next
  case False
  define p where "p = nat pos"
  from False assms have b: "0 \<le> pos" "p + length bs \<le> length buf"
    and e: "buf' = take p buf @ bs @ drop (p + length bs) buf"
    by (auto simp: store_def p_def split: if_splits)
  have l: "length (take p buf) = p" using b by simp
  have ip: "int p = pos" using b by (simp add: p_def)
  consider "j < p" | "p \<le> j" "j < p + length bs" | "p + length bs \<le> j" by linarith
  then show ?thesis
  proof cases
    case 1
    then have "buf' ! j = buf ! j" using e l by (simp add: nth_append)
    moreover have "\<not> pos \<le> int j" using 1 ip by linarith
    ultimately show ?thesis by simp
  next
    case 2
    then have "\<not> j < p" "j - p < length bs" by linarith+
    then have "buf' ! j = bs ! (j - p)" using e l by (simp add: nth_append)
    moreover have "pos \<le> int j \<and> int j < pos + int (length bs)" using 2 ip by linarith
    moreover have "nat (int j - pos) = j - p" using 2 ip by linarith
    ultimately show ?thesis by simp
  next
    case 3
    then have "\<not> j < p" "\<not> j - p < length bs" by linarith+
    then have "buf' ! j = drop (p + length bs) buf ! (j - p - length bs)"
      using e l by (simp add: nth_append)
    also have "\<dots> = buf ! (p + length bs + (j - p - length bs))"
      using b assms(2) 3 by (intro nth_drop) 
    also have "p + length bs + (j - p - length bs) = j" using 3 by linarith
    finally have "buf' ! j = buf ! j" .
    moreover have "\<not> int j < pos + int (length bs)" using 3 ip by linarith
    ultimately show ?thesis by simp
  qed
qed

lemma istream_read_length:
  "int (length (istream_read c pos n)) \<le> max 0 n"
  by (auto simp: istream_read_def split: option.splits)

lemma istream_read_nth:
  assumes "i < length (istream_read c pos n)"
  shows "\<exists>bs. c = Some bs \<and> 0 \<le> pos \<and> nat pos + i < length bs \<and> int i < n
           \<and> istream_read c pos n ! i = bs ! (nat pos + i)"
  using assms by (auto simp: istream_read_def split: option.splits if_splits)

lemma istream_read_covers:
  assumes "c = Some bs" and "0 \<le> pos" and "nat pos + i < length bs" and "int i < n"
  shows "i < length (istream_read c pos n)"
  using assms by (auto simp: istream_read_def)

lemma byte_at_Cons:
  "byte_at d (f # fs) v =
     (if v < file_size f
      then (case d (file_key f) of
              None \<Rightarrow> None
            | Some c \<Rightarrow> if 0 \<le> v \<and> v < int (length c) then Some (c ! nat v) else None)
      else byte_at d fs (v - file_size f))"
  by (simp add: byte_at_def)

lemma read_step_byte:
  assumes "store buf pos (istream_read c off rb) = Inr buf1" and "j < length buf"
    and "0 \<le> off" and "0 \<le> pos" and "pos \<le> int j" and "int j < pos + rb"
  shows "buf1 ! j =
     (case (case c of None \<Rightarrow> None
            | Some bs \<Rightarrow> if 0 \<le> off + (int j - pos) \<and> off + (int j - pos) < int (length bs)
                         then Some (bs ! nat (off + (int j - pos))) else None) of
        Some b \<Rightarrow> b | None \<Rightarrow> buf ! j)"
proof -
  define got where "got = istream_read c off rb"
  define i where "i = nat (int j - pos)"
  have i: "int i = int j - pos" using assms(5) by (simp add: i_def)
  have n: "nat (off + (int j - pos)) = nat off + i" using assms(3,5) i by linarith
  from store_nth [OF assms(1,2)]
  have b1: "buf1 ! j = (if int j < pos + int (length got) then got ! i else buf ! j)"
    using assms(5) by (simp add: got_def i_def)
  show ?thesis
  proof (cases "i < length got")
    case True
    from istream_read_nth [OF True [unfolded got_def]] obtain bs where
      "c = Some bs" "nat off + i < length bs" "got ! i = bs ! (nat off + i)"
      by (auto simp: got_def)
    moreover have "int j < pos + int (length got)" using True i by linarith
    moreover have "off + (int j - pos) < int (length bs)"
      using \<open>nat off + i < length bs\<close> n assms(3,5) by linarith
    ultimately show ?thesis using b1 n assms(3,5) by simp
  next
    case False
    then have o: "\<not> int j < pos + int (length got)" using i by linarith
    have "c = None \<or> (\<exists>bs. c = Some bs \<and> \<not> off + (int j - pos) < int (length bs))"
    proof (cases c)
      case None
      then show ?thesis by simp
    next
      case (Some bs)
      have "\<not> nat off + i < length bs"
      proof
        assume "nat off + i < length bs"
        from istream_read_covers [OF Some assms(3) this, of rb] assms(6) i False
        show False by (simp add: got_def)
      qed
      then have "\<not> off + (int j - pos) < int (length bs)" using n assms(3,5) by linarith
      with Some show ?thesis by simp
    qed
    then show ?thesis using b1 o by auto
  qed
qed

lemma read_loop_Cons:
  assumes "read_loop dbg c (f # fs) off buf pos left = Inr buf'" and "0 < left"
    and "rb = (if off + to_int left > file_size f then to_int (file_size f - off)
               else to_int left)"
  shows "\<exists>buf1. store buf pos (istream_read (c (file_key f)) off rb) = Inr buf1
       \<and> read_loop dbg c fs 0 buf1 (pos + rb) (left - rb) = Inr buf'
       \<and> (dbg \<longrightarrow> 0 < rb \<and> rb = to_int (int (length (istream_read (c (file_key f)) off rb))))"
  using assms(1,2) unfolding read_loop.simps Let_def assms(3) [symmetric]
  by (auto simp: expect_def int_add_def split: if_splits sum.splits)

lemma read_loop_idle:
  assumes "read_loop dbg c fs 0 buf pos left = Inr buf'" and "to_int left = 0"
    and "\<forall>f\<in>set fs. 0 \<le> file_size f"
  shows "buf' = buf"
  using assms
proof (induction fs arbitrary: pos)
  case Nil
  then show ?case by (auto split: if_splits)
next
  case (Cons f fs)
  show ?case
  proof (cases "0 < left")
    case False
    with Cons.prems(1) show ?thesis by simp
  next
    case True
    have rb: "(0::int) = (if 0 + to_int left > file_size f then to_int (file_size f - 0)
                          else to_int left)"
      using Cons.prems(2,3) by simp
    from read_loop_Cons [OF Cons.prems(1) True rb] obtain buf1 where
      st: "store buf pos (istream_read (c (file_key f)) 0 0) = Inr buf1"
      and rest: "read_loop dbg c fs 0 buf1 (pos + 0) (left - 0) = Inr buf'"
      by blast
    have "istream_read (c (file_key f)) 0 0 = []"
      by (simp add: istream_read_def split: option.splits)
    with st have "buf1 = buf" by (simp add: store_def)
    with Cons.IH [of "pos + 0"] rest Cons.prems(2,3) show ?thesis by simp
  qed
qed

lemma read_step_frame:
  assumes "store buf pos (istream_read (c (file_key f)) off rb) = Inr buf1"
    and "j < length buf" and "0 \<le> off" and "0 \<le> pos" and "off + rb \<le> file_size f"
  shows "buf1 ! j = buf ! j
       \<or> (pos \<le> int j \<and> int j < pos + rb
          \<and> byte_at c (f # fs) (off + (int j - pos)) = Some (buf1 ! j))"
proof (cases "pos \<le> int j \<and> int j < pos + rb")
  case False
  have "int (length (istream_read (c (file_key f)) off rb)) \<le> max 0 rb"
    by (rule istream_read_length)
  with False have "\<not> (pos \<le> int j \<and> int j < pos + int (length (istream_read (c (file_key f)) off rb)))"
    by linarith
  with store_nth [OF assms(1,2)] show ?thesis by simp
next
  case True
  then have t: "pos \<le> int j" "int j < pos + rb" by simp_all
  have lt: "off + (int j - pos) < file_size f" "0 \<le> off + (int j - pos)"
    using t assms(3,5) by linarith+
  note b = read_step_byte [OF assms(1,2,3,4) t]
  show ?thesis
  proof (cases "c (file_key f)")
    case None
    with b show ?thesis by simp
  next
    case (Some bs)
    show ?thesis
    proof (cases "off + (int j - pos) < int (length bs)")
      case False
      with b Some show ?thesis by simp
    next
      case k: True
      with b Some lt have "buf1 ! j = bs ! nat (off + (int j - pos))" by simp
      moreover have "byte_at c (f # fs) (off + (int j - pos))
                     = Some (bs ! nat (off + (int j - pos)))"
        using Some lt k by (simp add: byte_at_Cons)
      ultimately show ?thesis using t by simp
    qed
  qed
qed

lemma read_loop_frame:
  assumes "read_loop dbg c fs off buf pos left = Inr buf'"
    and "\<forall>f\<in>set fs. 0 \<le> file_size f" and "0 \<le> off"
    and "fs \<noteq> [] \<longrightarrow> off \<le> file_size (hd fs)" and "0 \<le> pos"
  shows "length buf' = length buf
       \<and> (\<forall>j<length buf. buf' ! j = buf ! j
            \<or> (pos \<le> int j \<and> int j < pos + left
               \<and> byte_at c fs (off + (int j - pos)) = Some (buf' ! j)))"
  using assms
proof (induction fs arbitrary: off buf pos left)
  case Nil
  then show ?case by (auto split: if_splits)
next
  case (Cons f fs)
  show ?case
  proof (cases "left > 0")
    case False
    with Cons.prems(1) show ?thesis by auto
  next
    case True
    define rb where "rb = (if off + to_int left > file_size f then to_int (file_size f - off)
                           else to_int left)"
    from read_loop_Cons [OF Cons.prems(1) True rb_def] obtain buf1 where
      st: "store buf pos (istream_read (c (file_key f)) off rb) = Inr buf1"
      and rest: "read_loop dbg c fs 0 buf1 (pos + rb) (left - rb) = Inr buf'"
      by blast
    have offle: "off \<le> file_size f" using Cons.prems(4) by simp
    have w: "to_int left < 2147483648" "to_int left \<le> left"
      using to_int_range [of left] to_int_le [of left] True by simp_all
    have l1: "length buf1 = length buf" using store_length [OF st] .
    have sz: "\<forall>f\<in>set fs. 0 \<le> file_size f" using Cons.prems(2) by simp
    show ?thesis
    proof (cases "off + to_int left > file_size f")
      case over: True
      have "to_int (file_size f - off) = file_size f - off"
        using over offle w by (intro to_int_id) linarith+
      with over have rb: "rb = file_size f - off" by (simp add: rb_def)
      then have r: "0 \<le> rb" "off + rb = file_size f" "rb \<le> left"
        using offle over w by linarith+
      have ih: "length buf' = length buf1
         \<and> (\<forall>j<length buf1. buf' ! j = buf1 ! j
              \<or> (pos + rb \<le> int j \<and> int j < pos + rb + (left - rb)
                 \<and> byte_at c fs (0 + (int j - (pos + rb))) = Some (buf' ! j)))"
      proof (rule Cons.IH [OF rest sz])
        show "(0::int) \<le> 0" by simp
        show "fs \<noteq> [] \<longrightarrow> 0 \<le> file_size (hd fs)" using Cons.prems(2) by (cases fs) auto
        show "0 \<le> pos + rb" using Cons.prems(5) r by simp
      qed
      have "buf' ! j = buf ! j
            \<or> (pos \<le> int j \<and> int j < pos + left
               \<and> byte_at c (f # fs) (off + (int j - pos)) = Some (buf' ! j))"
        if j: "j < length buf" for j
      proof -
        from ih j l1 consider (same) "buf' ! j = buf1 ! j"
          | (later) "pos + rb \<le> int j" "int j < pos + left"
              "byte_at c fs (int j - (pos + rb)) = Some (buf' ! j)"
          by auto
        then show ?thesis
        proof cases
          case same
          from read_step_frame [where c = c and f = f and fs = fs, OF st j Cons.prems(3,5)] r
          have "buf1 ! j = buf ! j
             \<or> (pos \<le> int j \<and> int j < pos + rb
                \<and> byte_at c (f # fs) (off + (int j - pos)) = Some (buf1 ! j))"
            by simp
          with same r show ?thesis by auto
        next
          case later
          have a: "\<not> off + (int j - pos) < file_size f"
            "off + (int j - pos) - file_size f = int j - (pos + rb)"
            using later(1) r by linarith+
          have "byte_at c (f # fs) (off + (int j - pos)) = byte_at c fs (int j - (pos + rb))"
            using a(1) by (simp only: byte_at_Cons a(2) if_False)
          with later r show ?thesis by auto
        qed
      qed
      with ih l1 show ?thesis by simp
    next
      case False
      then have rb: "rb = to_int left" and le: "off + rb \<le> file_size f"
        by (simp_all add: rb_def)
      have "to_int (left - rb) = 0" unfolding rb by (rule to_int_idle)
      from read_loop_idle [OF rest this sz] have e: "buf' = buf1" .
      have "buf' ! j = buf ! j
            \<or> (pos \<le> int j \<and> int j < pos + left
               \<and> byte_at c (f # fs) (off + (int j - pos)) = Some (buf' ! j))"
        if j: "j < length buf" for j
        using read_step_frame [where c = c and f = f and fs = fs, OF st j Cons.prems(3,5) le]
          w rb e by auto
      with e l1 show ?thesis by simp
    qed
  qed
qed

lemma read_loop_spec:
  assumes "read_loop dbg c fs off buf pos left = Inr buf'"
    and "\<forall>f\<in>set fs. 0 \<le> file_size f" and "0 \<le> off"
    and "fs \<noteq> [] \<longrightarrow> off \<le> file_size (hd fs)" and "0 \<le> pos"
    and "left < 2147483648"
  shows "length buf' = length buf
       \<and> (\<forall>j<length buf. buf' ! j =
            (if pos \<le> int j \<and> int j < pos + left
             then (case byte_at c fs (off + (int j - pos)) of Some b \<Rightarrow> b | None \<Rightarrow> buf ! j)
             else buf ! j))"
  using assms
proof (induction fs arbitrary: off buf pos left)
  case Nil
  then show ?case by (auto split: if_splits)
next
  case (Cons f fs)
  show ?case
  proof (cases "left > 0")
    case False
    with Cons.prems(1) show ?thesis by auto
  next
    case True
    define rb where "rb = (if off + left > file_size f then file_size f - off else left)"
    define got where "got = istream_read (c (file_key f)) off rb"
    have offle: "off \<le> file_size f" using Cons.prems(4) by simp
    have rb: "0 \<le> rb" "rb \<le> left" "rb < left \<longrightarrow> off + rb = file_size f"
      "off + rb \<le> file_size f"
      using offle True by (auto simp: rb_def)
    have tl: "to_int left = left" using True Cons.prems(6) by (intro to_int_id) linarith+
    have "off + left > file_size f \<longrightarrow> to_int (file_size f - off) = file_size f - off"
      using offle Cons.prems(6) by (intro impI to_int_id) linarith+
    with tl have e: "rb = (if off + to_int left > file_size f then to_int (file_size f - off)
                           else to_int left)"
      by (simp add: rb_def)
    from read_loop_Cons [OF Cons.prems(1) True e] obtain buf1 where
      st: "store buf pos got = Inr buf1"
      and rest: "read_loop dbg c fs 0 buf1 (pos + rb) (left - rb) = Inr buf'"
      unfolding got_def by blast
    have gl: "int (length got) \<le> rb"
      using istream_read_length [of "c (file_key f)" off rb] rb by (simp add: got_def)
    have l1: "length buf1 = length buf" using store_length [OF st] .
    have ih: "length buf' = length buf1
       \<and> (\<forall>j<length buf1. buf' ! j =
            (if pos + rb \<le> int j \<and> int j < pos + rb + (left - rb)
             then (case byte_at c fs (0 + (int j - (pos + rb))) of
                     Some b \<Rightarrow> b | None \<Rightarrow> buf1 ! j)
             else buf1 ! j))"
    proof (rule Cons.IH [OF rest])
      show "\<forall>f\<in>set fs. 0 \<le> file_size f" using Cons.prems(2) by simp
      show "(0::int) \<le> 0" by simp
      show "fs \<noteq> [] \<longrightarrow> 0 \<le> file_size (hd fs)" using Cons.prems(2) by (cases fs) auto
      show "0 \<le> pos + rb" using Cons.prems(5) rb by simp
      show "left - rb < 2147483648" using Cons.prems(6) rb by linarith
    qed
    have "buf' ! j =
            (if pos \<le> int j \<and> int j < pos + left
             then (case byte_at c (f # fs) (off + (int j - pos)) of
                     Some b \<Rightarrow> b | None \<Rightarrow> buf ! j)
             else buf ! j)" if j: "j < length buf" for j
    proof -
      from ih j l1 have s: "buf' ! j =
            (if pos + rb \<le> int j \<and> int j < pos + left
             then (case byte_at c fs (int j - (pos + rb)) of
                     Some b \<Rightarrow> b | None \<Rightarrow> buf1 ! j)
             else buf1 ! j)" by simp
      from store_nth [OF st j] have s1: "buf1 ! j =
         (if pos \<le> int j \<and> int j < pos + int (length got)
          then got ! nat (int j - pos) else buf ! j)" .
      consider "int j < pos" | "pos + left \<le> int j" | "pos \<le> int j" "int j < pos + rb"
        | "pos + rb \<le> int j" "int j < pos + left" by linarith
      then show ?thesis
      proof cases
        case 1
        then have "\<not> pos + rb \<le> int j" "\<not> pos \<le> int j"
          using rb by linarith+
        with s s1 show ?thesis by simp
      next
        case 2
        then have "\<not> int j < pos + left" "\<not> int j < pos + int (length got)"
          using rb gl by linarith+
        with s s1 show ?thesis by simp
      next
        case 3
        then have a: "\<not> pos + rb \<le> int j"
          "pos \<le> int j" "int j < pos + left" "off + (int j - pos) < file_size f"
          using rb by linarith+
        from read_step_byte [OF st [unfolded got_def] j Cons.prems(3) Cons.prems(5) 3]
        show ?thesis using s a by (simp add: byte_at_Cons)
      next
        case 4
        then have a: "pos \<le> int j" "\<not> off + (int j - pos) < file_size f"
          "\<not> int j < pos + int (length got)"
          using rb gl by linarith+
        have e: "off + (int j - pos) - file_size f = int j - (pos + rb)"
          using rb 4 by linarith
        have "byte_at c (f # fs) (off + (int j - pos)) = byte_at c fs (int j - (pos + rb))"
          using a(2) by (simp only: byte_at_Cons e if_False)
        with s s1 4 a show ?thesis by (simp split: option.splits)
      qed
    qed
    with ih l1 show ?thesis by simp
  qed
qed

lemma read_loop_dbg:
  assumes "read_loop True c fs off buf pos left = Inr buf'"
    and "\<forall>f\<in>set fs. 0 \<le> file_size f" and "0 \<le> off"
    and "fs \<noteq> [] \<longrightarrow> off \<le> file_size (hd fs)"
  shows "left < 2147483648
       \<and> (0 < left \<longrightarrow> 0 \<le> pos \<and> pos + left \<le> int (length buf))
       \<and> (\<forall>k. 0 \<le> k \<and> k < left \<longrightarrow> byte_at c fs (off + k) \<noteq> None)"
  using assms
proof (induction fs arbitrary: off buf pos left)
  case Nil
  then show ?case by (auto split: if_splits)
next
  case (Cons f fs)
  show ?case
  proof (cases "left > 0")
    case False
    then show ?thesis by auto
  next
    case True
    define rb where "rb = (if off + to_int left > file_size f then to_int (file_size f - off)
                           else to_int left)"
    define got where "got = istream_read (c (file_key f)) off rb"
    from read_loop_Cons [OF Cons.prems(1) True rb_def] obtain buf1 where
      st: "store buf pos got = Inr buf1"
      and rest: "read_loop True c fs 0 buf1 (pos + rb) (left - rb) = Inr buf'"
      and pos: "0 < rb" and ar: "rb = to_int (int (length got))"
      unfolding got_def by blast
    have offle: "off \<le> file_size f" using Cons.prems(4) by simp
    from to_int_decomp_pos [of left] True obtain k where
      k: "0 \<le> k" "left = to_int left + k * 4294967296" by auto
    have w: "to_int left < 2147483648" using to_int_range [of left] by simp
    have "rb \<le> to_int left \<and> off + rb \<le> file_size f
          \<and> (rb < to_int left \<longrightarrow> off + rb = file_size f)"
    proof (cases "off + to_int left > file_size f")
      case over: True
      have "to_int (file_size f - off) = file_size f - off"
        using over offle w by (intro to_int_id) linarith+
      with over have "rb = file_size f - off" by (simp add: rb_def)
      with over show ?thesis by simp
    next
      case False
      then have "rb = to_int left" by (simp add: rb_def)
      with False show ?thesis by simp
    qed
    then have rbw: "rb \<le> to_int left" "off + rb \<le> file_size f"
      "rb < to_int left \<longrightarrow> off + rb = file_size f"
      by simp_all
    have "int (length got) \<le> max 0 rb" unfolding got_def by (rule istream_read_length)
    with pos rbw(1) w have "to_int (int (length got)) = int (length got)"
      by (intro to_int_id) linarith+
    with ar have gl: "int (length got) = rb" by simp
    with pos have ne: "got \<noteq> []" by auto
    with st gl have b: "0 \<le> pos" "pos + rb \<le> int (length buf)"
      by (auto simp: store_def split: if_splits)
    have l1: "length buf1 = length buf" using store_length [OF st] .
    have ih: "left - rb < 2147483648
       \<and> (0 < left - rb \<longrightarrow> 0 \<le> pos + rb \<and> pos + rb + (left - rb) \<le> int (length buf1))
       \<and> (\<forall>k. 0 \<le> k \<and> k < left - rb \<longrightarrow> byte_at c fs (0 + k) \<noteq> None)"
    proof (rule Cons.IH [OF rest])
      show "\<forall>f\<in>set fs. 0 \<le> file_size f" using Cons.prems(2) by simp
      show "(0::int) \<le> 0" by simp
      show "fs \<noteq> [] \<longrightarrow> 0 \<le> file_size (hd fs)" using Cons.prems(2) by (cases fs) auto
    qed
    have k0: "k = 0"
    proof (rule ccontr)
      assume "k \<noteq> 0"
      with k(1) have "4294967296 \<le> k * 4294967296" by simp
      with k(2) rbw(1) ih show False by linarith
    qed
    with k(2) have lw: "left = to_int left" by simp
    have 1: "left < 2147483648" using lw w by simp
    have 2: "0 \<le> pos \<and> pos + left \<le> int (length buf)"
    proof (cases "0 < left - rb")
      case True
      with ih l1 b show ?thesis by simp
    next
      case False
      with rbw(1) lw have "left = rb" by linarith
      with b show ?thesis by simp
    qed
    have 3: "byte_at c (f # fs) (off + k) \<noteq> None" if kk: "0 \<le> k" "k < left" for k
    proof (cases "k < rb")
      case True
      define i where "i = nat k"
      have i: "i < length got" "int i = k" using True kk gl by (simp_all add: i_def)
      from istream_read_nth [OF i(1) [unfolded got_def]] obtain bs where
        bs: "c (file_key f) = Some bs" "nat off + i < length bs" by blast
      have "off + k < file_size f" "0 \<le> off + k" "off + k < int (length bs)"
        using True rbw(2) Cons.prems(3) kk bs(2) i(2) by linarith+
      with bs(1) show ?thesis by (simp add: byte_at_Cons)
    next
      case False
      with kk lw have "rb < to_int left" by linarith
      with rbw(3) have e: "off + rb = file_size f" by simp
      have a: "\<not> off + k < file_size f" "off + k - file_size f = k - rb"
        "0 \<le> k - rb" "k - rb < left - rb"
        using False e kk by linarith+
      have "byte_at c (f # fs) (off + k) = byte_at c fs (k - rb)"
        using a(1) by (simp only: byte_at_Cons a(2) if_False)
      moreover from ih a(3,4) have "byte_at c fs (0 + (k - rb)) \<noteq> None" by blast
      ultimately show ?thesis by simp
    qed
    from 1 2 3 show ?thesis by blast
  qed
qed

lemma find_file_spec:
  assumes "find_file fs v = Inr (fs', off)" and "\<forall>f\<in>set fs. 0 \<le> file_size f" and "0 \<le> v"
  shows "fs' \<noteq> [] \<and> 0 \<le> off \<and> off < file_size (hd fs') \<and> (\<forall>f\<in>set fs'. 0 \<le> file_size f)
       \<and> (\<forall>k\<ge>0. locate fs (v + k) = locate fs' (off + k))
       \<and> (\<exists>pre. fs = pre @ fs')"
  using assms
proof (induction fs arbitrary: v)
  case Nil
  then show ?case by simp
next
  case (Cons f fs)
  show ?case
  proof (cases "v < file_size f")
    case True
    with Cons.prems show ?thesis by auto
  next
    case False
    with Cons.prems(1) have r: "find_file fs (v - file_size f) = Inr (fs', off)" by simp
    have "fs' \<noteq> [] \<and> 0 \<le> off \<and> off < file_size (hd fs') \<and> (\<forall>f\<in>set fs'. 0 \<le> file_size f)
       \<and> (\<forall>k\<ge>0. locate fs (v - file_size f + k) = locate fs' (off + k))
       \<and> (\<exists>pre. fs = pre @ fs')"
      using Cons.prems(2) False by (intro Cons.IH [OF r]) auto
    moreover have "locate (f # fs) (v + k) = locate fs (v - file_size f + k)" if "0 \<le> k" for k
    proof -
      have "\<not> v + k < file_size f" using False that by linarith
      moreover have "v + k - file_size f = v - file_size f + k" by simp
      ultimately show ?thesis by (simp only: locate.simps if_False)
    qed
    ultimately show ?thesis by (auto intro: exI [of _ "f # _"])
  qed
qed

lemma byte_at_locate:
  assumes "locate fs v = locate fs' v'"
  shows "byte_at d fs v = byte_at d fs' v'"
  using assms by (simp add: byte_at_def)

lemma storage_read_unfold:
  assumes "storage_read dbg ti d buf slot offset sz = Inr (r, buf')"
    and "left = (if offset + sz > piece_size ti slot then piece_size ti slot - offset else sz)"
  shows "\<exists>fs off. 0 \<le> slot \<and> slot < num_pieces ti
       \<and> find_file (files ti) (slot * piece_length ti + offset) = Inr (fs, off)
       \<and> read_loop dbg (contents d) fs off buf 0 left = Inr buf' \<and> r = to_int left
       \<and> (dbg \<longrightarrow> 0 \<le> left)"
  using assms(1) unfolding storage_read_def Let_def assms(2) [symmetric]
  by (auto simp: expect_def split: if_splits sum.splits)

lemma storage_read_frame:
  assumes "storage_read dbg ti d buf slot offset sz = Inr (r, buf')"
    and "\<forall>f\<in>set (files ti). 0 \<le> file_size f" and "0 \<le> piece_length ti" and "0 \<le> offset"
  shows "length buf' = length buf
       \<and> (\<forall>j<length buf.
             byte_at (contents d) (files ti) (slot * piece_length ti + offset + int j) = None
             \<longrightarrow> buf' ! j = buf ! j)"
proof -
  define start where "start = slot * piece_length ti + offset"
  define left where
    "left = (if offset + sz > piece_size ti slot then piece_size ti slot - offset else sz)"
  from storage_read_unfold [OF assms(1) left_def] obtain fs off where slot: "0 \<le> slot"
    and ff: "find_file (files ti) start = Inr (fs, off)"
    and rl: "read_loop dbg (contents d) fs off buf 0 left = Inr buf'"
    unfolding start_def by blast
  have "0 \<le> start" using slot assms(3,4) by (simp add: start_def)
  from find_file_spec [OF ff assms(2) this]
  have fs: "fs \<noteq> []" "0 \<le> off" "off < file_size (hd fs)" "\<forall>f\<in>set fs. 0 \<le> file_size f"
    and loc: "\<And>k. 0 \<le> k \<Longrightarrow> locate (files ti) (start + k) = locate fs (off + k)"
    by auto
  have "length buf' = length buf
       \<and> (\<forall>j<length buf. buf' ! j = buf ! j
            \<or> (0 \<le> int j \<and> int j < 0 + left
               \<and> byte_at (contents d) fs (off + (int j - 0)) = Some (buf' ! j)))"
    using fs by (intro read_loop_frame [OF rl]) auto
  moreover have "byte_at (contents d) (files ti) (start + int j)
                 = byte_at (contents d) fs (off + int j)" for j
    by (rule byte_at_locate) (simp add: loc)
  ultimately show ?thesis
    by (auto simp: start_def)
qed

lemma storage_read_spec:
  assumes "storage_read dbg ti d buf slot offset sz = Inr (r, buf')"
    and "\<forall>f\<in>set (files ti). 0 \<le> file_size f" and "0 \<le> piece_length ti" and "0 \<le> offset"
    and "left = (if offset + sz > piece_size ti slot then piece_size ti slot - offset else sz)"
    and "left < 2147483648"
  shows "r = to_int left
       \<and> length buf' = length buf
       \<and> (\<forall>j<length buf. buf' ! j =
            (if int j < left
             then (case byte_at (contents d) (files ti) (slot * piece_length ti + offset + int j) of
                     Some b \<Rightarrow> b | None \<Rightarrow> buf ! j)
             else buf ! j))"
proof -
  define start where "start = slot * piece_length ti + offset"
  from storage_read_unfold [OF assms(1,5)] obtain fs off where slot: "0 \<le> slot"
    and ff: "find_file (files ti) start = Inr (fs, off)"
    and rl: "read_loop dbg (contents d) fs off buf 0 left = Inr buf'" and r: "r = to_int left"
    unfolding start_def by blast
  have "0 \<le> start" using slot assms(3,4) by (simp add: start_def)
  from find_file_spec [OF ff assms(2) this]
  have fs: "fs \<noteq> []" "0 \<le> off" "off < file_size (hd fs)" "\<forall>f\<in>set fs. 0 \<le> file_size f"
    and loc: "\<And>k. 0 \<le> k \<Longrightarrow> locate (files ti) (start + k) = locate fs (off + k)"
    by auto
  have "length buf' = length buf
       \<and> (\<forall>j<length buf. buf' ! j =
            (if 0 \<le> int j \<and> int j < 0 + left
             then (case byte_at (contents d) fs (off + (int j - 0)) of
                     Some b \<Rightarrow> b | None \<Rightarrow> buf ! j)
             else buf ! j))"
    using fs assms(6) by (intro read_loop_spec [OF rl]) auto
  moreover have "byte_at (contents d) (files ti) (start + int j)
                 = byte_at (contents d) fs (off + int j)" for j
    by (rule byte_at_locate) (simp add: loc)
  ultimately show ?thesis
    by (simp add: r start_def)
qed

lemma storage_read_dbg:
  assumes "storage_read True ti d buf slot offset sz = Inr (r, buf')"
    and "\<forall>f\<in>set (files ti). 0 \<le> file_size f" and "0 \<le> piece_length ti" and "0 \<le> offset"
    and "left = (if offset + sz > piece_size ti slot then piece_size ti slot - offset else sz)"
  shows "r = left \<and> 0 \<le> left \<and> left < 2147483648 \<and> left \<le> int (length buf)
       \<and> (\<forall>k. 0 \<le> k \<and> k < left \<longrightarrow>
             byte_at (contents d) (files ti) (slot * piece_length ti + offset + k) \<noteq> None)"
proof -
  define start where "start = slot * piece_length ti + offset"
  from storage_read_unfold [OF assms(1,5)] obtain fs off where slot: "0 \<le> slot"
    and ff: "find_file (files ti) start = Inr (fs, off)"
    and rl: "read_loop True (contents d) fs off buf 0 left = Inr buf'" and r: "r = to_int left"
    and l0: "0 \<le> left"
    unfolding start_def by blast
  have "0 \<le> start" using slot assms(3,4) by (simp add: start_def)
  from find_file_spec [OF ff assms(2) this]
  have fs: "fs \<noteq> []" "0 \<le> off" "off < file_size (hd fs)" "\<forall>f\<in>set fs. 0 \<le> file_size f"
    and loc: "\<And>k. 0 \<le> k \<Longrightarrow> locate (files ti) (start + k) = locate fs (off + k)"
    by auto
  have d: "left < 2147483648
       \<and> (0 < left \<longrightarrow> 0 \<le> (0::int) \<and> 0 + left \<le> int (length buf))
       \<and> (\<forall>k. 0 \<le> k \<and> k < left \<longrightarrow> byte_at (contents d) fs (off + k) \<noteq> None)"
    using fs by (intro read_loop_dbg [OF rl]) auto
  have "byte_at (contents d) (files ti) (start + k) = byte_at (contents d) fs (off + k)"
    if "0 \<le> k" for k
    by (rule byte_at_locate) (simp add: loc that)
  moreover have "to_int left = left" using l0 d by (intro to_int_id) linarith+
  moreover have "left \<le> int (length buf)" using d l0 by (cases "0 < left") auto
  ultimately show ?thesis using d l0 r by (simp add: start_def)
qed

text \<open>
  Claim C5, as amended. When \<^verbatim>\<open>storage::read\<close> returns, its value is the requested size
  cut to the end of the slot and converted to \<^verbatim>\<open>int\<close>, whatever the files delivered:
  \<^verbatim>\<open>result\<close> is set before the loop and the count of \<^verbatim>\<open>gcount\<close> is used in an assertion
  only. The buffer keeps its length, and every position whose byte is not on disk (the
  file is missing or too short) keeps the byte it had: nothing is filled with zero. When
  the cut size fits an \<^verbatim>\<open>int\<close> the whole buffer is known: a position below the cut size
  holds the byte of the disk at its address when there is one and the byte it had
  otherwise, and the positions from the cut size on are unchanged. With assertions on, a
  read that returns was not short: the value is the cut size itself, it is not negative,
  and every byte of the range was on disk and is now in the buffer.
  (File sizes and the piece length are not negative, and neither is \<open>offset\<close>.)
\<close>

theorem C5_read_returns_clamped_size:
  assumes "storage_read dbg ti d buf slot offset sz = Inr (r, buf')"
    and "\<forall>f\<in>set (files ti). 0 \<le> file_size f" and "0 \<le> piece_length ti" and "0 \<le> offset"
  shows "r = to_int (if offset + sz > piece_size ti slot then piece_size ti slot - offset else sz)
       \<and> length buf' = length buf
       \<and> (\<forall>j<length buf.
             byte_at (contents d) (files ti) (slot * piece_length ti + offset + int j) = None
             \<longrightarrow> buf' ! j = buf ! j)
       \<and> ((if offset + sz > piece_size ti slot then piece_size ti slot - offset else sz)
              < 2147483648 \<longrightarrow>
            (\<forall>j<length buf. buf' ! j =
               (if int j < (if offset + sz > piece_size ti slot then piece_size ti slot - offset
                            else sz)
                then (case byte_at (contents d) (files ti)
                             (slot * piece_length ti + offset + int j) of
                        Some b \<Rightarrow> b | None \<Rightarrow> buf ! j)
                else buf ! j)))
       \<and> (dbg \<longrightarrow>
             r = (if offset + sz > piece_size ti slot then piece_size ti slot - offset else sz)
           \<and> 0 \<le> r \<and> r \<le> int (length buf)
           \<and> (\<forall>k. 0 \<le> k \<and> k < r \<longrightarrow>
                 byte_at (contents d) (files ti) (slot * piece_length ti + offset + k)
                   = Some (buf' ! nat k)))"
proof -
  define left where
    "left = (if offset + sz > piece_size ti slot then piece_size ti slot - offset else sz)"
  from storage_read_unfold [OF assms(1) left_def] have r: "r = to_int left" by blast
  note fr = storage_read_frame [OF assms]
  have sp: "\<forall>j<length buf. buf' ! j =
               (if int j < left
                then (case byte_at (contents d) (files ti)
                             (slot * piece_length ti + offset + int j) of
                        Some b \<Rightarrow> b | None \<Rightarrow> buf ! j)
                else buf ! j)" if "left < 2147483648"
    using storage_read_spec [OF assms left_def that] by simp
  have "r = left \<and> 0 \<le> r \<and> r \<le> int (length buf)
           \<and> (\<forall>k. 0 \<le> k \<and> k < r \<longrightarrow>
                 byte_at (contents d) (files ti) (slot * piece_length ti + offset + k)
                   = Some (buf' ! nat k))" if dbg
  proof -
    from assms(1) that have a: "storage_read True ti d buf slot offset sz = Inr (r, buf')"
      by simp
    note d = storage_read_dbg [OF a assms(2,3,4) left_def]
    then have lt: "left < 2147483648" by simp
    note s = storage_read_spec [OF assms left_def lt]
    have "byte_at (contents d) (files ti) (slot * piece_length ti + offset + k)
            = Some (buf' ! nat k)" if k: "0 \<le> k" "k < r" for k
    proof -
      from d k obtain b where
        b: "byte_at (contents d) (files ti) (slot * piece_length ti + offset + k) = Some b"
        by auto
      have n: "nat k < length buf" "int (nat k) = k" "int (nat k) < left"
        using d k by linarith+
      from s n(1) have "buf' ! nat k =
            (if int (nat k) < left
             then (case byte_at (contents d) (files ti)
                          (slot * piece_length ti + offset + int (nat k)) of
                     Some b \<Rightarrow> b | None \<Rightarrow> buf ! nat k)
             else buf ! nat k)"
        by blast
      with n(2,3) b show ?thesis by simp
    qed
    with d show ?thesis by simp
  qed
  with r fr sp show ?thesis unfolding left_def by blast
qed

theorem C5_witness:
  "storage_read False three_files disk_b_missing [7, 7] 1 0 2 = Inr (2, [7, 7])
   \<and> map file_size (files three_files) = [2, 2, 1] \<and> 0 \<le> piece_length three_files
   \<and> (2::int) = to_int (if 0 + 2 > piece_size three_files 1
                         then piece_size three_files 1 - 0 else 2)
   \<and> byte_at (contents disk_b_missing) (files three_files)
        (1 * piece_length three_files + 0 + int 0) = None
   \<and> storage_read True twin_pieces disk_twin [7, 7] 1 0 2 = Inr (2, [5, 5])
   \<and> map file_size (files twin_pieces) = [5] \<and> 0 \<le> piece_length twin_pieces
   \<and> byte_at (contents disk_twin) (files twin_pieces) (1 * piece_length twin_pieces + 0 + 1)
       = Some ([5, 5] ! nat 1)"
proof -
  have h: "storage_read False three_files disk_b_missing [7, 7] 1 0 2 = Inr (2, [7, 7])"
    by code_simp
  have w: "\<forall>f\<in>set (files three_files). 0 \<le> file_size f" "0 \<le> piece_length three_files"
    by (simp_all add: three_files_def)
  have z: "(0::int) \<le> 0" by simp
  have b: "byte_at (contents disk_b_missing) (files three_files)
             (1 * piece_length three_files + 0 + int 0) = None"
    by code_simp
  have m: "map file_size (files three_files) = [2, 2, 1]"
    by (simp add: three_files_def)
  have h2: "storage_read True twin_pieces disk_twin [7, 7] 1 0 2 = Inr (2, [5, 5])"
    by code_simp
  have w2: "\<forall>f\<in>set (files twin_pieces). 0 \<le> file_size f" "0 \<le> piece_length twin_pieces"
    by (simp_all add: twin_pieces_def)
  have m2: "map file_size (files twin_pieces) = [5]"
    by (simp add: twin_pieces_def)
  from C5_read_returns_clamped_size [OF h w z]
  have r: "(2::int) = to_int (if 0 + 2 > piece_size three_files 1
                              then piece_size three_files 1 - 0 else 2)"
    by simp
  from C5_read_returns_clamped_size [OF h2 w2 z]
  have "\<forall>k. 0 \<le> k \<and> k < 2 \<longrightarrow>
          byte_at (contents disk_twin) (files twin_pieces) (1 * piece_length twin_pieces + 0 + k)
            = Some ([5, 5] ! nat k)"
    by simp
  then have b2: "byte_at (contents disk_twin) (files twin_pieces)
                   (1 * piece_length twin_pieces + 0 + 1) = Some ([5, 5] ! nat 1)"
    by (metis zero_le_one one_less_numeral_iff semiring_norm(76))
  from h w b m h2 w2 m2 r b2 show ?thesis by simp
qed

text \<open>
  Claim C5 as stated fails: in \<open>three_files\<close> the file of slot 1 is missing, the stream
  delivers no byte, and \<^verbatim>\<open>storage::read\<close> of 2 bytes returns 2 with assertions off;
  with assertions on it stops at the assertion on \<^verbatim>\<open>tellg\<close>.
\<close>

theorem C5_short_read_counterexample:
  "storage_read False three_files disk_b_missing [7, 7] 1 0 2 = Inr (2, [7, 7])
   \<and> length (istream_read (contents disk_b_missing ([''t''], ''b'')) 0 2) = 0
   \<and> storage_read True three_files disk_b_missing [7, 7] 1 0 2 = Inl AssertionFailed"
  by code_simp

subsection \<open>What storage::write changes\<close>

lemma ostream_write_frame:
  assumes "0 \<le> pos"
  shows "length old \<le> length (ostream_write old pos bs)
   \<and> (\<forall>i<length old. \<not> (pos \<le> int i \<and> int i < pos + int (length bs))
         \<longrightarrow> ostream_write old pos bs ! i = old ! i)"
proof (cases "bs = []")
  case True
  then show ?thesis by (simp add: ostream_write_def)
next
  case False
  define p where "p = nat pos"
  have ip: "int p = pos" using assms by (simp add: p_def)
  have e: "ostream_write old pos bs
           = take p old @ replicate (p - length old) 0 @ bs @ drop (p + length bs) old"
    using False by (simp add: ostream_write_def p_def)
  have len: "length old \<le> length (ostream_write old pos bs)"
    unfolding e by simp
  have "ostream_write old pos bs ! i = old ! i"
    if i: "i < length old" and o: "\<not> (pos \<le> int i \<and> int i < pos + int (length bs))" for i
  proof -
    from o ip consider "i < p" | "p + length bs \<le> i" by linarith
    then show ?thesis
    proof cases
      case 1
      then have "i < length (take p old)" using i by simp
      then show ?thesis unfolding e using 1 by (simp add: nth_append)
    next
      case 2
      then have a: "\<not> i < length (take p old)" "p \<le> length old" "length (take p old) = p"
        "p - length old = 0" using i by simp_all
      have b: "\<not> i - p < length bs" using 2 by linarith
      have "ostream_write old pos bs ! i = drop (p + length bs) old ! (i - p - length bs)"
        unfolding e using a b by (simp add: nth_append)
      also have "\<dots> = old ! (p + length bs + (i - p - length bs))"
      proof (rule nth_drop)
        show "p + length bs \<le> length old" using i 2 by linarith
      qed
      also have "p + length bs + (i - p - length bs) = i" using 2 by linarith
      finally show ?thesis .
    qed
  qed
  with len show ?thesis by blast
qed


lemma ostream_write_Nil: "ostream_write old off [] = old"
  by (simp add: ostream_write_def)

lemma fetch_spec:
  assumes "fetch buf pos n = Inr bs"
  shows "int (length bs) = max 0 n
       \<and> (\<forall>k<length bs. 0 \<le> pos \<and> nat pos + k < length buf \<and> bs ! k = buf ! (nat pos + k))"
proof (cases "n \<le> 0")
  case True
  with assms show ?thesis by (simp add: fetch_def)
next
  case False
  with assms have b: "0 \<le> pos" "pos + n \<le> int (length buf)"
    and e: "bs = take (nat n) (drop (nat pos) buf)"
    by (auto simp: fetch_def split: if_splits)
  have "nat n + nat pos \<le> length buf" using b False by linarith
  then have "length bs = nat n" unfolding e by simp
  moreover have "bs ! k = buf ! (nat pos + k) \<and> nat pos + k < length buf" if "k < length bs" for k
    using that \<open>nat n + nat pos \<le> length buf\<close> unfolding e by simp
  ultimately show ?thesis using b False by auto
qed



lemma ofstream_step_some:
  assumes "ofstream_write (ofstream_open ds c f) f off buf pos wb = Inr c1"
    and "c key = Some old"
  shows "\<exists>old1. c1 key = Some old1 \<and> length old \<le> length old1
       \<and> (\<forall>i<length old. \<not> (key = file_key f \<and> off \<le> int i \<and> int i < off + wb)
             \<longrightarrow> old1 ! i = old ! i)
       \<and> (wb \<le> 0 \<longrightarrow> old1 = old)"
proof (cases "key = file_key f \<and> 0 \<le> off")
  case False
  with assms have "c1 key = Some old"
    by (auto simp: ofstream_write_def ofstream_open_def
             split: option.splits if_splits sum.splits)
  then show ?thesis by simp
next
  case True
  with assms obtain bs where fe: "fetch buf pos wb = Inr bs"
    and c1: "c1 key = Some (ostream_write old off bs)"
    by (auto simp: ofstream_write_def ofstream_open_def
             split: option.splits if_splits sum.splits)
  have bl: "int (length bs) = max 0 wb" using fetch_spec [OF fe] by simp
  from True have o: "0 \<le> off" by simp
  have "wb \<le> 0 \<longrightarrow> ostream_write old off bs = old"
    using bl by (auto simp: ostream_write_Nil)
  moreover have "\<forall>i<length old. \<not> (off \<le> int i \<and> int i < off + wb)
                   \<longrightarrow> ostream_write old off bs ! i = old ! i"
    using ostream_write_frame [OF o, of old bs] bl by auto
  ultimately show ?thesis using c1 True ostream_write_frame [OF o, of old bs] by auto
qed


lemma write_loop_Cons:
  assumes "write_loop dbg ds c (f # fs) off buf pos left = Inr c'" and "0 < left"
    and "wb = (if off + to_int left > file_size f then to_int (file_size f - off)
               else to_int left)"
  shows "\<exists>c1. ofstream_write (ofstream_open ds c f) f off buf pos wb = Inr c1
       \<and> write_loop dbg ds c1 fs 0 buf (pos + wb) (left - wb) = Inr c'"
  using assms(1,2) unfolding write_loop.simps Let_def assms(3) [symmetric]
  by (auto simp: expect_def int_add_def split: if_splits sum.splits)



lemma write_loop_idle:
  assumes "write_loop dbg ds c fs 0 buf pos left = Inr c'" and "to_int left = 0"
    and "\<forall>f\<in>set fs. 0 \<le> file_size f" and "c key = Some old"
  shows "c' key = Some old"
  using assms
proof (induction fs arbitrary: c pos)
  case Nil
  then show ?case by (auto split: if_splits)
next
  case (Cons f fs)
  show ?case
  proof (cases "0 < left")
    case False
    with Cons.prems(1,4) show ?thesis by simp
  next
    case True
    have wb: "(0::int) = (if 0 + to_int left > file_size f then to_int (file_size f - 0)
                          else to_int left)"
      using Cons.prems(2,3) by simp
    from write_loop_Cons [OF Cons.prems(1) True wb] obtain c1 where
      st: "ofstream_write (ofstream_open ds c f) f 0 buf pos 0 = Inr c1"
      and rest: "write_loop dbg ds c1 fs 0 buf (pos + 0) (left - 0) = Inr c'"
      by blast
    from ofstream_step_some [OF st Cons.prems(4)] have k: "c1 key = Some old" by auto
    have sz: "\<forall>f\<in>set fs. 0 \<le> file_size f" using Cons.prems(3) by simp
    from rest have r: "write_loop dbg ds c1 fs 0 buf (pos + 0) left = Inr c'" by simp
    show ?thesis
      by (rule Cons.IH [of c1 "pos + 0", OF r Cons.prems(2) sz k])
  qed
qed

lemma write_loop_frame:
  assumes "write_loop dbg ds c fs off buf pos left = Inr c'"
    and "\<forall>f\<in>set fs. 0 \<le> file_size f" and "0 \<le> off"
    and "fs \<noteq> [] \<longrightarrow> off \<le> file_size (hd fs)"
    and "c key = Some old"
  shows "\<exists>new. c' key = Some new \<and> length old \<le> length new
       \<and> (\<forall>i<length old. (\<forall>k. 0 \<le> k \<and> k < left \<longrightarrow> locate fs (off + k) \<noteq> Some (key, int i))
             \<longrightarrow> new ! i = old ! i)"
  using assms
proof (induction fs arbitrary: c off pos left old)
  case Nil
  then show ?case by (auto split: if_splits)
next
  case (Cons f fs)
  show ?case
  proof (cases "0 < left")
    case False
    with Cons.prems(1,5) show ?thesis by simp
  next
    case True
    define over where "over \<longleftrightarrow> off + to_int left > file_size f"
    define wb where "wb = (if off + to_int left > file_size f then to_int (file_size f - off)
                           else to_int left)"
    from write_loop_Cons [OF Cons.prems(1) True wb_def] obtain c1 where
      st: "ofstream_write (ofstream_open ds c f) f off buf pos wb = Inr c1"
      and rest: "write_loop dbg ds c1 fs 0 buf (pos + wb) (left - wb) = Inr c'"
      by blast
    have offle: "off \<le> file_size f" using Cons.prems(4) by simp
    have w: "to_int left < 2147483648" "to_int left \<le> left"
      using to_int_range [of left] to_int_le [of left] True by simp_all
    have "wb \<le> left \<and> off + wb \<le> file_size f \<and> (over \<longrightarrow> 0 \<le> wb \<and> off + wb = file_size f)
          \<and> (\<not> over \<longrightarrow> wb = to_int left)"
    proof (cases over)
      case True
      have "to_int (file_size f - off) = file_size f - off"
        using True offle w unfolding over_def by (intro to_int_id) linarith+
      with True have "wb = file_size f - off" by (simp add: wb_def over_def)
      with True offle w show ?thesis unfolding over_def by simp
    next
      case False
      then have "wb = to_int left" by (simp add: wb_def over_def)
      with False w show ?thesis unfolding over_def by simp
    qed
    then have wb: "wb \<le> left" "off + wb \<le> file_size f" "over \<longrightarrow> 0 \<le> wb"
      "over \<longrightarrow> off + wb = file_size f" "\<not> over \<longrightarrow> wb = to_int left"
      by simp_all
    from ofstream_step_some [OF st Cons.prems(5)] obtain old1 where
      c1: "c1 key = Some old1" and o1: "length old \<le> length old1"
      "\<And>i. i < length old \<Longrightarrow> \<not> (key = file_key f \<and> off \<le> int i \<and> int i < off + wb)
          \<Longrightarrow> old1 ! i = old ! i"
      by blast
    have sz: "\<forall>f\<in>set fs. 0 \<le> file_size f" using Cons.prems(2) by simp
    have "\<exists>new. c' key = Some new \<and> length old1 \<le> length new
       \<and> (\<forall>i<length old1.
             (over \<longrightarrow> (\<forall>k. 0 \<le> k \<and> k < left - wb \<longrightarrow> locate fs (0 + k) \<noteq> Some (key, int i)))
             \<longrightarrow> new ! i = old1 ! i)"
    proof (cases over)
      case True
      have "\<exists>new. c' key = Some new \<and> length old1 \<le> length new
         \<and> (\<forall>i<length old1.
               (\<forall>k. 0 \<le> k \<and> k < left - wb \<longrightarrow> locate fs (0 + k) \<noteq> Some (key, int i))
               \<longrightarrow> new ! i = old1 ! i)"
      proof (rule Cons.IH [OF rest sz _ _ c1])
        show "(0::int) \<le> 0" by simp
        show "fs \<noteq> [] \<longrightarrow> 0 \<le> file_size (hd fs)" using Cons.prems(2) by (cases fs) auto
      qed
      with True show ?thesis by simp
    next
      case False
      with wb have "to_int (left - wb) = 0" by (simp add: to_int_idle)
      from write_loop_idle [OF rest this sz c1]
      show ?thesis by simp
    qed
    then obtain new where new: "c' key = Some new" "length old1 \<le> length new"
      and fr: "\<And>i. i < length old1 \<Longrightarrow>
                 (over \<longrightarrow> (\<forall>k. 0 \<le> k \<and> k < left - wb \<longrightarrow> locate fs k \<noteq> Some (key, int i)))
                 \<Longrightarrow> new ! i = old1 ! i"
      by auto
    have "new ! i = old ! i" if i: "i < length old"
      and un: "\<forall>k. 0 \<le> k \<and> k < left \<longrightarrow> locate (f # fs) (off + k) \<noteq> Some (key, int i)" for i
    proof -
      have "locate fs k \<noteq> Some (key, int i)" if k: "0 \<le> k" "k < left - wb" and ov: over for k
      proof -
        from k wb ov have a: "0 \<le> wb + k" "wb + k < left" "\<not> off + (wb + k) < file_size f"
          "off + (wb + k) - file_size f = k"
          by linarith+
        from un a(1,2) have "locate (f # fs) (off + (wb + k)) \<noteq> Some (key, int i)" by blast
        moreover have "locate (f # fs) (off + (wb + k)) = locate fs k"
          using a(3,4) by (simp only: locate.simps if_False)
        ultimately show ?thesis by simp
      qed
      then have "new ! i = old1 ! i" using fr i o1(1) by simp
      moreover have "\<not> (key = file_key f \<and> off \<le> int i \<and> int i < off + wb)"
      proof
        assume r: "key = file_key f \<and> off \<le> int i \<and> int i < off + wb"
        then have a: "0 \<le> int i - off" "int i - off < left" "off + (int i - off) < file_size f"
          using wb by linarith+
        from un a(1,2) have "locate (f # fs) (off + (int i - off)) \<noteq> Some (key, int i)"
          by blast
        then show False using a(3) r by simp
      qed
      ultimately show ?thesis using o1(2) [OF i] by simp
    qed
    with new o1(1) show ?thesis by (intro exI [of _ new]) auto
  qed
qed


lemma storage_write_unfold:
  assumes "storage_write dbg ti d buf slot offset sz = Inr d'"
    and "left = (if offset + sz > piece_size ti slot then piece_size ti slot - offset else sz)"
  shows "\<exists>fs off c'. 0 \<le> slot \<and> slot < num_pieces ti
       \<and> find_file (files ti) (slot * piece_length ti + offset) = Inr (fs, off)
       \<and> write_loop dbg (dirs d) (ofstream_open (dirs d) (contents d) (hd fs)) fs off buf 0 left
           = Inr c'
       \<and> d' = d\<lparr>contents := c'\<rparr>"
  using assms(1) unfolding storage_write_def Let_def assms(2) [symmetric]
  by (auto simp: expect_def split: if_splits sum.splits)

lemma ofstream_open_some:
  assumes "c key = Some old"
  shows "ofstream_open ds c f key = Some old"
  using assms by (auto simp: ofstream_open_def)

text \<open>
  Claim C9. When \<^verbatim>\<open>storage::write\<close> returns, every file that existed before still
  exists and is not shorter, and each of its bytes that is not at one of the addresses
  \<open>start + k\<close> with \<open>0 \<le> k < size\<close> (\<open>start\<close> the address of \<open>offset\<close> in the slot) is
  unchanged: an existing file is opened for reading and writing, without truncation, and
  only the addressed span is written. (File sizes and the piece length are not negative.)
\<close>

theorem C9_write_preserves_other_bytes:
  assumes "storage_write dbg ti d buf slot offset sz = Inr d'"
    and "\<forall>f\<in>set (files ti). 0 \<le> file_size f" and "0 \<le> piece_length ti" and "0 \<le> offset"
    and "contents d key = Some c" and "i < length c"
    and "\<forall>k. 0 \<le> k \<and> k < sz
           \<longrightarrow> locate (files ti) (slot * piece_length ti + offset + k) \<noteq> Some (key, int i)"
  shows "\<exists>c'. contents d' key = Some c' \<and> length c \<le> length c' \<and> c' ! i = c ! i"
proof -
  define start where "start = slot * piece_length ti + offset"
  define left where
    "left = (if offset + sz > piece_size ti slot then piece_size ti slot - offset else sz)"
  from storage_write_unfold [OF assms(1) left_def] obtain fs off m where slot: "0 \<le> slot"
    and ff: "find_file (files ti) start = Inr (fs, off)"
    and wl: "write_loop dbg (dirs d) (ofstream_open (dirs d) (contents d) (hd fs)) fs off buf 0
               left = Inr m"
    and d': "d' = d\<lparr>contents := m\<rparr>"
    unfolding start_def by blast
  have "0 \<le> start" using slot assms(3,4) by (simp add: start_def)
  from find_file_spec [OF ff assms(2) this]
  have fs: "fs \<noteq> []" "0 \<le> off" "off < file_size (hd fs)" "\<forall>f\<in>set fs. 0 \<le> file_size f"
    and loc: "\<And>k. 0 \<le> k \<Longrightarrow> locate (files ti) (start + k) = locate fs (off + k)"
    by auto
  have d1: "ofstream_open (dirs d) (contents d) (hd fs) key = Some c"
    by (rule ofstream_open_some) (rule assms(5))
  have "\<exists>c'. m key = Some c' \<and> length c \<le> length c'
       \<and> (\<forall>i<length c. (\<forall>k. 0 \<le> k \<and> k < left \<longrightarrow> locate fs (off + k) \<noteq> Some (key, int i))
             \<longrightarrow> c' ! i = c ! i)"
    using fs by (intro write_loop_frame [OF wl _ _ _ d1]) auto
  then obtain c' where c': "m key = Some c'" "length c \<le> length c'"
    and fr: "(\<forall>k. 0 \<le> k \<and> k < left \<longrightarrow> locate fs (off + k) \<noteq> Some (key, int i))
             \<longrightarrow> c' ! i = c ! i"
    using assms(6) by blast
  have "left \<le> sz" by (simp add: left_def)
  then have "\<forall>k. 0 \<le> k \<and> k < left \<longrightarrow> locate fs (off + k) \<noteq> Some (key, int i)"
    using assms(7) loc by (auto simp: start_def)
  with fr c' d' show ?thesis by simp
qed

theorem C9_witness:
  "\<exists>d' c'. storage_write False twin_pieces disk_twin [6, 6] 1 0 2 = Inr d'
     \<and> contents disk_twin ([''t''], ''a'') = Some [1, 1, 5, 5, 3]
     \<and> contents d' ([''t''], ''a'') = Some c' \<and> 5 \<le> length c'
     \<and> c' ! 0 = 1 \<and> c' ! 4 = 3 \<and> c' ! 2 = 6"
proof -
  have "\<not> isl (storage_write False twin_pieces disk_twin [6, 6] 1 0 2)"
    by code_simp
  then obtain d' where h: "storage_write False twin_pieces disk_twin [6, 6] 1 0 2 = Inr d'"
    by (cases "storage_write False twin_pieces disk_twin [6, 6] 1 0 2") auto
  have w: "\<forall>f\<in>set (files twin_pieces). 0 \<le> file_size f" "0 \<le> piece_length twin_pieces"
    by (simp_all add: twin_pieces_def)
  have z: "(0::int) \<le> 0" by simp
  have c: "contents disk_twin ([''t''], ''a'') = Some [1, 1, 5, 5, 3]"
    by (simp add: disk_twin_def)
  have loc: "locate (files twin_pieces) v = (if v < 5 then Some (([''t''], ''a''), v) else None)"
    for v by (simp add: twin_pieces_def file_key_def)
  have u0: "\<forall>k. 0 \<le> k \<and> k < 2 \<longrightarrow>
      locate (files twin_pieces) (1 * piece_length twin_pieces + 0 + k)
        \<noteq> Some (([''t''], ''a''), int 0)"
    by (auto simp: loc) (simp add: twin_pieces_def)
  have u4: "\<forall>k. 0 \<le> k \<and> k < 2 \<longrightarrow>
      locate (files twin_pieces) (1 * piece_length twin_pieces + 0 + k)
        \<noteq> Some (([''t''], ''a''), int 4)"
    by (auto simp: loc) (simp add: twin_pieces_def)
  have l0: "0 < length [1, 1, 5, 5, 3 :: byte]" and l4: "4 < length [1, 1, 5, 5, 3 :: byte]"
    by simp_all
  from C9_write_preserves_other_bytes [OF h w z c l0 u0]
  obtain c0 where c0: "contents d' ([''t''], ''a'') = Some c0" "5 \<le> length c0" "c0 ! 0 = 1"
    by auto
  from C9_write_preserves_other_bytes [OF h w z c l4 u4] c0(1)
  have c4: "c0 ! 4 = 3" by auto
  have "(case storage_write False twin_pieces disk_twin [6, 6] 1 0 2 of
           Inl e \<Rightarrow> None | Inr d' \<Rightarrow> contents d' ([''t''], ''a'')) = Some [1, 1, 6, 6, 3]"
    by code_simp
  with h c0(1) have "c0 ! 2 = 6" by simp
  with h c c0 c4 show ?thesis by blast
qed

subsection \<open>What allocate_slots writes\<close>















subsection \<open>Updates of the two tables\<close>

lemma maps_ok_mark:
  assumes "maps_ok n p2s s2p" and "c < n" and "s2p ! c < 0" and "v < 0"
  shows "maps_ok n p2s (s2p[c := v])"
proof -
  from assms(1) have l: "length p2s = n" "length s2p = n"
    and f: "\<And>p. p < n \<Longrightarrow> p2s ! p \<noteq> -1 \<Longrightarrow>
              0 \<le> p2s ! p \<and> nat (p2s ! p) < n \<and> s2p ! nat (p2s ! p) = int p"
    and b: "\<And>s. s < n \<Longrightarrow> 0 \<le> s2p ! s \<Longrightarrow> nat (s2p ! s) < n \<and> p2s ! nat (s2p ! s) = int s"
    by (auto simp: maps_ok_def)
  have f': "0 \<le> p2s ! p \<and> nat (p2s ! p) < n \<and> s2p[c := v] ! nat (p2s ! p) = int p"
    if "p < n" "p2s ! p \<noteq> -1" for p
  proof -
    from f [OF that] have a: "0 \<le> p2s ! p" "nat (p2s ! p) < n" "s2p ! nat (p2s ! p) = int p"
      by simp_all
    then have "nat (p2s ! p) \<noteq> c" using assms(3) by auto
    with a show ?thesis by simp
  qed
  have b': "nat (s2p[c := v] ! s) < n \<and> p2s ! nat (s2p[c := v] ! s) = int s"
    if "s < n" "0 \<le> s2p[c := v] ! s" for s
  proof (cases "s = c")
    case True
    with that assms(2,4) l show ?thesis by simp
  next
    case False
    with that b [of s] show ?thesis by simp
  qed
  show ?thesis unfolding maps_ok_def using l f' b' by simp
qed

lemma maps_ok_assign:
  assumes "maps_ok n p2s s2p" and "p < n" and "c < n" and "p2s ! p = -1" and "s2p ! c < 0"
  shows "maps_ok n (p2s[p := int c]) (s2p[c := int p])"
proof -
  from assms(1) have l: "length p2s = n" "length s2p = n"
    and f: "\<And>q. q < n \<Longrightarrow> p2s ! q \<noteq> -1 \<Longrightarrow>
              0 \<le> p2s ! q \<and> nat (p2s ! q) < n \<and> s2p ! nat (p2s ! q) = int q"
    and b: "\<And>s. s < n \<Longrightarrow> 0 \<le> s2p ! s \<Longrightarrow> nat (s2p ! s) < n \<and> p2s ! nat (s2p ! s) = int s"
    by (auto simp: maps_ok_def)
  have f': "0 \<le> p2s[p := int c] ! q \<and> nat (p2s[p := int c] ! q) < n
            \<and> s2p[c := int p] ! nat (p2s[p := int c] ! q) = int q"
    if "q < n" "p2s[p := int c] ! q \<noteq> -1" for q
  proof (cases "q = p")
    case True
    with assms(2,3) l show ?thesis by simp
  next
    case False
    with that have q: "p2s ! q \<noteq> -1" by simp
    from f [OF that(1) q] have a: "0 \<le> p2s ! q" "nat (p2s ! q) < n"
      "s2p ! nat (p2s ! q) = int q" by simp_all
    then have "nat (p2s ! q) \<noteq> c" using assms(5) by auto
    with a False show ?thesis by simp
  qed
  have b': "nat (s2p[c := int p] ! s) < n \<and> p2s[p := int c] ! nat (s2p[c := int p] ! s) = int s"
    if "s < n" "0 \<le> s2p[c := int p] ! s" for s
  proof (cases "s = c")
    case True
    with assms(2,3) l show ?thesis by simp
  next
    case False
    with that have s: "0 \<le> s2p ! s" by simp
    from b [OF that(1) s] have a: "nat (s2p ! s) < n" "p2s ! nat (s2p ! s) = int s" by simp_all
    then have "nat (s2p ! s) \<noteq> p" using assms(4) by auto
    with a False show ?thesis by simp
  qed
  show ?thesis unfolding maps_ok_def using l f' b' by simp
qed

lemma maps_ok_unassign:
  assumes "maps_ok n p2s s2p" and "p < n" and "p2s ! p = int old" and "v < 0"
  shows "maps_ok n (p2s[p := -1]) (s2p[old := v]) \<and> old < n \<and> s2p ! old = int p"
proof -
  from assms(1) have l: "length p2s = n" "length s2p = n"
    and f: "\<And>q. q < n \<Longrightarrow> p2s ! q \<noteq> -1 \<Longrightarrow>
              0 \<le> p2s ! q \<and> nat (p2s ! q) < n \<and> s2p ! nat (p2s ! q) = int q"
    and b: "\<And>s. s < n \<Longrightarrow> 0 \<le> s2p ! s \<Longrightarrow> nat (s2p ! s) < n \<and> p2s ! nat (s2p ! s) = int s"
    by (auto simp: maps_ok_def)
  from f [OF assms(2)] assms(3) have o: "old < n" "s2p ! old = int p" by simp_all
  have f': "0 \<le> p2s[p := -1] ! q \<and> nat (p2s[p := -1] ! q) < n
            \<and> s2p[old := v] ! nat (p2s[p := -1] ! q) = int q"
    if "q < n" "p2s[p := -1] ! q \<noteq> -1" for q
  proof (cases "q = p")
    case True
    with that l assms(2) show ?thesis by simp
  next
    case False
    with that have q: "p2s ! q \<noteq> -1" by simp
    from f [OF that(1) q] have a: "0 \<le> p2s ! q" "nat (p2s ! q) < n"
      "s2p ! nat (p2s ! q) = int q" by simp_all
    then have "nat (p2s ! q) \<noteq> old" using o False by auto
    with a False show ?thesis by simp
  qed
  have b': "nat (s2p[old := v] ! s) < n \<and> p2s[p := -1] ! nat (s2p[old := v] ! s) = int s"
    if "s < n" "0 \<le> s2p[old := v] ! s" for s
  proof (cases "s = old")
    case True
    with that assms(4) o l show ?thesis by simp
  next
    case False
    with that have s: "0 \<le> s2p ! s" by simp
    from b [OF that(1) s] have a: "nat (s2p ! s) < n" "p2s ! nat (s2p ! s) = int s" by simp_all
    have "nat (s2p ! s) \<noteq> p"
    proof
      assume "nat (s2p ! s) = p"
      with a assms(3) False show False by simp
    qed
    with a False show ?thesis by simp
  qed
  show ?thesis unfolding maps_ok_def using l f' b' o by simp
qed

lemma slots_marked_update:
  assumes "slots_marked v s2p slots" and "int c \<notin> set slots"
  shows "slots_marked v (s2p[c := w]) slots"
proof -
  have "s2p[c := w] ! nat s = s2p ! nat s" if "s \<in> set slots" "0 \<le> s" for s
  proof -
    from that assms(2) have "int c \<noteq> s" by auto
    with that(2) have "c \<noteq> nat s" by auto
    then show ?thesis by simp
  qed
  with assms(1) show ?thesis unfolding slots_marked_def by auto
qed

lemma slots_marked_snoc:
  assumes "slots_marked v s2p slots" and "s \<notin> set slots" and "0 \<le> s"
    and "nat s < length s2p \<longrightarrow> s2p ! nat s = v"
  shows "slots_marked v s2p (slots @ [s])"
  using assms unfolding slots_marked_def by auto

subsection \<open>The invariant of the loop of check_pieces\<close>

lemma at_Inr:
  assumes "at xs i = Inr v"
  shows "0 \<le> i \<and> nat i < length xs \<and> v = xs ! nat i"
  using assms by (auto simp: at_def split: if_splits)

lemma put_Inr:
  assumes "put xs i v = Inr ys"
  shows "0 \<le> i \<and> nat i < length xs \<and> ys = xs[nat i := v]"
  using assms by (auto simp: put_def split: if_splits)

lemma record_free_unfold:
  assumes "record_free cs = Inr cs1"
  shows "0 \<le> current_slot cs \<and> nat (current_slot cs) < length (m_slot_to_piece (mgr cs))
       \<and> m_slot_to_piece (mgr cs1) = (m_slot_to_piece (mgr cs))[nat (current_slot cs) := -2]
       \<and> m_free_slots (mgr cs1) = m_free_slots (mgr cs) @ [current_slot cs]
       \<and> m_piece_to_slot (mgr cs1) = m_piece_to_slot (mgr cs)
       \<and> m_unallocated_slots (mgr cs1) = m_unallocated_slots (mgr cs)
       \<and> m_bytes_left (mgr cs1) = m_bytes_left (mgr cs)
       \<and> pieces cs1 = pieces cs \<and> current_slot cs1 = current_slot cs"
proof -
  from assms obtain s2p where p: "put (m_slot_to_piece (mgr cs)) (current_slot cs) (-2) = Inr s2p"
    and c: "cs1 = cs\<lparr>mgr := (mgr cs)\<lparr>m_slot_to_piece := s2p,
                          m_free_slots := m_free_slots (mgr cs) @ [current_slot cs]\<rparr>\<rparr>"
    by (auto simp: record_free_def Let_def split: sum.splits)
  from put_Inr [OF p] show ?thesis by (simp add: c)
qed

lemma record_found_unfold:
  assumes "record_found dbg ti cs p = Inr cs1"
  shows "0 \<le> p \<and> nat p < length (pieces cs) \<and> nat p < length (m_piece_to_slot (mgr cs))
       \<and> 0 \<le> current_slot cs \<and> nat (current_slot cs) < length (m_slot_to_piece (mgr cs))
       \<and> (pieces cs ! nat p \<longrightarrow>
            0 \<le> m_piece_to_slot (mgr cs) ! nat p
            \<and> nat (m_piece_to_slot (mgr cs) ! nat p) < length (m_slot_to_piece (mgr cs))
            \<and> m_slot_to_piece (mgr cs1) =
                 (m_slot_to_piece (mgr cs))[nat (m_piece_to_slot (mgr cs) ! nat p) := -2,
                                            nat (current_slot cs) := p]
            \<and> m_free_slots (mgr cs1) = m_free_slots (mgr cs) @ [m_piece_to_slot (mgr cs) ! nat p]
            \<and> m_bytes_left (mgr cs1) = m_bytes_left (mgr cs))
       \<and> (\<not> pieces cs ! nat p \<longrightarrow>
            m_slot_to_piece (mgr cs1) = (m_slot_to_piece (mgr cs))[nat (current_slot cs) := p]
            \<and> m_free_slots (mgr cs1) = m_free_slots (mgr cs)
            \<and> m_bytes_left (mgr cs1) = m_bytes_left (mgr cs) - piece_size ti p)
       \<and> m_piece_to_slot (mgr cs1) = (m_piece_to_slot (mgr cs))[nat p := current_slot cs]
       \<and> m_unallocated_slots (mgr cs1) = m_unallocated_slots (mgr cs)
       \<and> pieces cs1 = (pieces cs)[nat p := True] \<and> current_slot cs1 = current_slot cs"
proof -
  from assms obtain h where h: "at (pieces cs) p = Inr h"
    by (auto simp: record_found_def Let_def split: sum.splits)
  note hp = at_Inr [OF h]
  show ?thesis
  proof (cases h)
    case True
    with assms h obtain old s2pa p2s s2p hv where
      o: "at (m_piece_to_slot (mgr cs)) p = Inr old"
      and p1: "put (m_slot_to_piece (mgr cs)) old (-2) = Inr s2pa"
      and p2: "put (m_piece_to_slot (mgr cs)) p (current_slot cs) = Inr p2s"
      and p3: "put s2pa (current_slot cs) p = Inr s2p"
      and p4: "put (pieces cs) p True = Inr hv"
      and c: "cs1 = cs\<lparr>mgr := (mgr cs)\<lparr>m_slot_to_piece := s2p,
                 m_free_slots := m_free_slots (mgr cs) @ [old], m_piece_to_slot := p2s\<rparr>,
                 pieces := hv\<rparr>"
      by (auto simp: record_found_def Let_def expect_def split: sum.splits if_splits)
    from at_Inr [OF o] put_Inr [OF p1] put_Inr [OF p2] put_Inr [OF p3] put_Inr [OF p4] hp True
    show ?thesis by (simp add: c)
  next
    case False
    with assms h obtain p2s s2p hv where
      p2: "put (m_piece_to_slot (mgr cs)) p (current_slot cs) = Inr p2s"
      and p3: "put (m_slot_to_piece (mgr cs)) (current_slot cs) p = Inr s2p"
      and p4: "put (pieces cs) p True = Inr hv"
      and c: "cs1 = cs\<lparr>mgr := (mgr cs)\<lparr>m_bytes_left := m_bytes_left (mgr cs) - piece_size ti p,
                 m_piece_to_slot := p2s, m_slot_to_piece := s2p\<rparr>, pieces := hv\<rparr>"
      by (auto simp: record_found_def Let_def expect_def split: sum.splits if_splits)
    from put_Inr [OF p2] put_Inr [OF p3] put_Inr [OF p4] hp False
    show ?thesis by (simp add: c)
  qed
qed

lemma scan_okI:
  assumes "maps_ok (nat (num_pieces ti)) (m_piece_to_slot (mgr cs)) (m_slot_to_piece (mgr cs))"
    and "slots_marked (-2) (m_slot_to_piece (mgr cs)) (m_free_slots (mgr cs))"
    and "\<forall>s\<in>set (m_free_slots (mgr cs)). nat s < length (m_slot_to_piece (mgr cs))"
    and "slots_marked (-1) (m_slot_to_piece (mgr cs)) (m_unallocated_slots (mgr cs))"
    and "0 \<le> current_slot cs"
    and "\<forall>s<length (m_slot_to_piece (mgr cs)).
           current_slot cs \<le> int s \<longrightarrow> m_slot_to_piece (mgr cs) ! s = -1"
    and "\<forall>s\<in>set (m_free_slots (mgr cs)). s < current_slot cs"
    and "\<forall>s\<in>set (m_unallocated_slots (mgr cs)). s < current_slot cs"
    and "\<forall>p<length (m_piece_to_slot (mgr cs)).
           m_piece_to_slot (mgr cs) ! p \<noteq> -1 \<longrightarrow> p < length (pieces cs) \<and> pieces cs ! p"
  shows "scan_ok ti cs"
  using assms by (simp add: scan_ok_def tables_ok_def)

lemma scan_okD:
  assumes "scan_ok ti cs"
  shows "maps_ok (nat (num_pieces ti)) (m_piece_to_slot (mgr cs)) (m_slot_to_piece (mgr cs))"
    and "slots_marked (-2) (m_slot_to_piece (mgr cs)) (m_free_slots (mgr cs))"
    and "\<forall>s\<in>set (m_free_slots (mgr cs)). nat s < length (m_slot_to_piece (mgr cs))"
    and "slots_marked (-1) (m_slot_to_piece (mgr cs)) (m_unallocated_slots (mgr cs))"
    and "0 \<le> current_slot cs"
    and "\<forall>s<length (m_slot_to_piece (mgr cs)).
           current_slot cs \<le> int s \<longrightarrow> m_slot_to_piece (mgr cs) ! s = -1"
    and "\<forall>s\<in>set (m_free_slots (mgr cs)). s < current_slot cs"
    and "\<forall>s\<in>set (m_unallocated_slots (mgr cs)). s < current_slot cs"
    and "\<forall>p<length (m_piece_to_slot (mgr cs)).
           m_piece_to_slot (mgr cs) ! p \<noteq> -1 \<longrightarrow> p < length (pieces cs) \<and> pieces cs ! p"
  using assms by (simp_all add: scan_ok_def tables_ok_def)

lemma maps_ok_length:
  assumes "maps_ok n p2s s2p"
  shows "length p2s = n" and "length s2p = n"
  using assms by (simp_all add: maps_ok_def)

lemma scan_record_free:
  assumes "scan_ok ti cs" and "record_free cs = Inr cs1"
    and "mgr cs' = mgr cs1" and "pieces cs' = pieces cs1"
    and "current_slot cs' = current_slot cs + 1"
  shows "scan_ok ti cs'"
proof -
  define n where "n = nat (num_pieces ti)"
  define p2s where "p2s = m_piece_to_slot (mgr cs)"
  define s2p where "s2p = m_slot_to_piece (mgr cs)"
  define fr where "fr = m_free_slots (mgr cs)"
  define un where "un = m_unallocated_slots (mgr cs)"
  define cur where "cur = current_slot cs"
  note d = scan_okD [OF assms(1), folded n_def p2s_def s2p_def fr_def un_def cur_def]
  note u = record_free_unfold [OF assms(2), folded p2s_def s2p_def fr_def un_def cur_def]
  from u have c: "0 \<le> cur" "nat cur < length s2p" by simp_all
  have new: "m_slot_to_piece (mgr cs') = s2p[nat cur := -2]" "m_free_slots (mgr cs') = fr @ [cur]"
    "m_piece_to_slot (mgr cs') = p2s" "m_unallocated_slots (mgr cs') = un"
    "pieces cs' = pieces cs" "current_slot cs' = cur + 1"
    using u assms(3,4,5) by (simp_all add: cur_def)
  have l: "length s2p = n" "length p2s = n" using maps_ok_length [OF d(1)] by simp_all
  have un1: "s2p ! nat cur = -1" using d(6) c by simp
  have nf: "cur \<notin> set fr" "cur \<notin> set un" using d(7,8) by auto
  have icur: "int (nat cur) = cur" using c by simp
  show ?thesis
  proof (rule scan_okI; unfold new n_def [symmetric])
    show "maps_ok n p2s (s2p[nat cur := -2])"
      using maps_ok_mark [OF d(1)] c l un1 by simp
    have "slots_marked (-2) (s2p[nat cur := -2]) fr"
      using slots_marked_update [OF d(2), of "nat cur"] nf icur by simp
    then show "slots_marked (-2) (s2p[nat cur := -2]) (fr @ [cur])"
      using nf c by (intro slots_marked_snoc) simp_all
    show "\<forall>s\<in>set (fr @ [cur]). nat s < length (s2p[nat cur := -2])"
      using d(3) c by simp
    show "slots_marked (-1) (s2p[nat cur := -2]) un"
      using slots_marked_update [OF d(4), of "nat cur"] nf icur by simp
    show "0 \<le> cur + 1" using c by simp
    show "\<forall>s<length (s2p[nat cur := -2]). cur + 1 \<le> int s \<longrightarrow> s2p[nat cur := -2] ! s = -1"
    proof (intro allI impI)
      fix s assume s: "s < length (s2p[nat cur := -2])" "cur + 1 \<le> int s"
      then have "s \<noteq> nat cur" "cur \<le> int s" using c by linarith+
      with d(6) s(1) show "s2p[nat cur := -2] ! s = -1" by simp
    qed
    show "\<forall>s\<in>set (fr @ [cur]). s < cur + 1" using d(7) by auto
    show "\<forall>s\<in>set un. s < cur + 1" using d(8) by auto
    show "\<forall>p<length p2s. p2s ! p \<noteq> -1 \<longrightarrow> p < length (pieces cs) \<and> pieces cs ! p"
      using d(9) .
  qed
qed

lemma scan_record_found:
  assumes "scan_ok ti cs" and "record_found dbg ti cs p = Inr cs1"
    and "mgr cs' = mgr cs1" and "pieces cs' = pieces cs1"
    and "current_slot cs' = current_slot cs + 1"
  shows "scan_ok ti cs'"
proof -
  define n where "n = nat (num_pieces ti)"
  define p2s where "p2s = m_piece_to_slot (mgr cs)"
  define s2p where "s2p = m_slot_to_piece (mgr cs)"
  define fr where "fr = m_free_slots (mgr cs)"
  define un where "un = m_unallocated_slots (mgr cs)"
  define cur where "cur = current_slot cs"
  define hv where "hv = pieces cs"
  note d = scan_okD [OF assms(1), folded n_def p2s_def s2p_def fr_def un_def cur_def hv_def]
  note u = record_found_unfold [OF assms(2),
      folded p2s_def s2p_def fr_def un_def cur_def hv_def]
  have l: "length s2p = n" "length p2s = n" using maps_ok_length [OF d(1)] by simp_all
  from u l have c: "0 \<le> cur" "nat cur < n" and p: "0 \<le> p" "nat p < n" "nat p < length hv"
    by simp_all
  have new: "m_piece_to_slot (mgr cs') = p2s[nat p := cur]" "m_unallocated_slots (mgr cs') = un"
    "pieces cs' = hv[nat p := True]" "current_slot cs' = cur + 1"
    using u assms(3,4,5) by (simp_all add: cur_def)
  have un1: "s2p ! nat cur = -1" using d(6) c l by simp
  have nf: "cur \<notin> set fr" "cur \<notin> set un" using d(7,8) by auto
  have icur: "int (nat cur) = cur" and ip: "int (nat p) = p" using c p by simp_all
  have k4: "\<forall>q<length (p2s[nat p := cur]).
      p2s[nat p := cur] ! q \<noteq> -1 \<longrightarrow> q < length (hv[nat p := True]) \<and> hv[nat p := True] ! q"
  proof (intro allI impI)
    fix q assume q: "q < length (p2s[nat p := cur])" "p2s[nat p := cur] ! q \<noteq> -1"
    show "q < length (hv[nat p := True]) \<and> hv[nat p := True] ! q"
    proof (cases "q = nat p")
      case True
      with p show ?thesis by simp
    next
      case False
      with q d(9) show ?thesis by simp
    qed
  qed
  show ?thesis
  proof (cases "hv ! nat p")
    case True
    define old where "old = p2s ! nat p"
    from u True have o: "0 \<le> old" "nat old < n"
      and ns: "m_slot_to_piece (mgr cs') = s2p[nat old := -2, nat cur := p]"
      and nfr: "m_free_slots (mgr cs') = fr @ [old]"
      using assms(3) l by (simp_all add: old_def)
    have io: "int (nat old) = old" using o by simp
    have "p2s ! nat p = int (nat old)" using io by (simp add: old_def)
    from maps_ok_unassign [OF d(1) p(2) this, of "-2"]
    have m1: "maps_ok n (p2s[nat p := -1]) (s2p[nat old := -2])" and so: "s2p ! nat old = p"
      using ip by simp_all
    have oc: "old < cur"
    proof (rule ccontr)
      assume "\<not> old < cur"
      then have "cur \<le> int (nat old)" using o by simp
      with d(6) o l have "s2p ! nat old = -1" by simp
      with so p show False by simp
    qed
    then have ne: "nat old \<noteq> nat cur" using o c by linarith
    have "s2p[nat old := -2] ! nat cur < 0" using ne un1 by simp
    from maps_ok_assign [OF m1 p(2) c(2) _ this]
    have m2: "maps_ok n (p2s[nat p := cur]) (s2p[nat old := -2, nat cur := p])"
      using p l c by simp
    have onf: "old \<notin> set fr"
    proof
      assume "old \<in> set fr"
      with d(2) o l have "s2p ! nat old = -2" by (auto simp: slots_marked_def)
      with so p show False by simp
    qed
    have onu: "old \<notin> set un"
    proof
      assume "old \<in> set un"
      with d(4) o l have "s2p ! nat old = -1" by (auto simp: slots_marked_def)
      with so p show False by simp
    qed
    show ?thesis
    proof (rule scan_okI; unfold new ns nfr n_def [symmetric])
      show "maps_ok n (p2s[nat p := cur]) (s2p[nat old := -2, nat cur := p])" by (rule m2)
      have "slots_marked (-2) (s2p[nat old := -2]) fr"
        using slots_marked_update [OF d(2), of "nat old"] onf io by simp
      then have "slots_marked (-2) (s2p[nat old := -2, nat cur := p]) fr"
        using slots_marked_update [of "-2" "s2p[nat old := -2]" fr "nat cur"] nf icur by simp
      then show "slots_marked (-2) (s2p[nat old := -2, nat cur := p]) (fr @ [old])"
        using onf o ne l by (intro slots_marked_snoc) simp_all
      show "\<forall>s\<in>set (fr @ [old]). nat s < length (s2p[nat old := -2, nat cur := p])"
        using d(3) o l by simp
      have "slots_marked (-1) (s2p[nat old := -2]) un"
        using slots_marked_update [OF d(4), of "nat old"] onu io by simp
      then show "slots_marked (-1) (s2p[nat old := -2, nat cur := p]) un"
        using slots_marked_update [of "-1" "s2p[nat old := -2]" un "nat cur"] nf icur by simp
      show "0 \<le> cur + 1" using c by simp
      show "\<forall>s<length (s2p[nat old := -2, nat cur := p]).
              cur + 1 \<le> int s \<longrightarrow> s2p[nat old := -2, nat cur := p] ! s = -1"
      proof (intro allI impI)
        fix s assume s: "s < length (s2p[nat old := -2, nat cur := p])" "cur + 1 \<le> int s"
        then have "s \<noteq> nat cur" "s \<noteq> nat old" "cur \<le> int s" using c oc o by linarith+
        with d(6) s(1) show "s2p[nat old := -2, nat cur := p] ! s = -1" by simp
      qed
      show "\<forall>s\<in>set (fr @ [old]). s < cur + 1" using d(7) oc by auto
      show "\<forall>s\<in>set un. s < cur + 1" using d(8) by auto
      show "\<forall>q<length (p2s[nat p := cur]).
        p2s[nat p := cur] ! q \<noteq> -1 \<longrightarrow> q < length (hv[nat p := True]) \<and> hv[nat p := True] ! q"
        by (rule k4)
    qed
  next
    case False
    from u False have ns: "m_slot_to_piece (mgr cs') = s2p[nat cur := p]"
      and nfr: "m_free_slots (mgr cs') = fr"
      using assms(3) by simp_all
    have pu: "p2s ! nat p = -1" using d(9) False p l by auto
    from maps_ok_assign [OF d(1) p(2) c(2) pu] un1
    have m2: "maps_ok n (p2s[nat p := cur]) (s2p[nat cur := p])"
      using p c by simp
    show ?thesis
    proof (rule scan_okI; unfold new ns nfr n_def [symmetric])
      show "maps_ok n (p2s[nat p := cur]) (s2p[nat cur := p])" by (rule m2)
      show "slots_marked (-2) (s2p[nat cur := p]) fr"
        using slots_marked_update [OF d(2), of "nat cur"] nf icur by simp
      show "\<forall>s\<in>set fr. nat s < length (s2p[nat cur := p])" using d(3) by simp
      show "slots_marked (-1) (s2p[nat cur := p]) un"
        using slots_marked_update [OF d(4), of "nat cur"] nf icur by simp
      show "0 \<le> cur + 1" using c by simp
      show "\<forall>s<length (s2p[nat cur := p]). cur + 1 \<le> int s \<longrightarrow> s2p[nat cur := p] ! s = -1"
      proof (intro allI impI)
        fix s assume s: "s < length (s2p[nat cur := p])" "cur + 1 \<le> int s"
        then have "s \<noteq> nat cur" "cur \<le> int s" using c by linarith+
        with d(6) s(1) show "s2p[nat cur := p] ! s = -1" by simp
      qed
      show "\<forall>s\<in>set fr. s < cur + 1" using d(7) by auto
      show "\<forall>s\<in>set un. s < cur + 1" using d(8) by auto
      show "\<forall>q<length (p2s[nat p := cur]).
        p2s[nat p := cur] ! q \<noteq> -1 \<longrightarrow> q < length (hv[nat p := True]) \<and> hv[nat p := True] ! q"
        by (rule k4)
    qed
  qed
qed

lemma hash_slot_unfold:
  assumes "hash_slot sha1 dbg ti cs = Inr cs'"
  shows "\<exists>p cs1. (if p \<noteq> -1 then record_found dbg ti cs p else record_free cs) = Inr cs1
           \<and> mgr cs' = mgr cs1 \<and> pieces cs' = pieces cs1
           \<and> current_slot cs' = current_slot cs + 1 \<and> file_iter cs' = file_iter cs1
           \<and> abort_reads cs' = abort_reads cs1"
proof -
  from assms obtain p cs1 where
    r: "(if p \<noteq> -1 then record_found dbg ti cs p else record_free cs) = Inr cs1"
    and c: "cs' = cs1\<lparr>piece_offset := 0, current_slot := current_slot cs + 1,
                          bytes_to_read := piece_size ti (current_slot cs + 1)\<rparr>"
    unfolding hash_slot_def Let_def by (auto split: sum.splits)
  have "mgr cs' = mgr cs1 \<and> pieces cs' = pieces cs1
           \<and> current_slot cs' = current_slot cs + 1 \<and> file_iter cs' = file_iter cs1
           \<and> abort_reads cs' = abort_reads cs1"
    by (simp add: c)
  with r show ?thesis by blast
qed

lemma hash_slot_scan:
  assumes "scan_ok ti cs" and "hash_slot sha1 dbg ti cs = Inr cs'"
  shows "scan_ok ti cs'"
proof -
  from hash_slot_unfold [OF assms(2)] obtain p cs1 where
    r: "(if p \<noteq> -1 then record_found dbg ti cs p else record_free cs) = Inr cs1"
    and e: "mgr cs' = mgr cs1" "pieces cs' = pieces cs1"
      "current_slot cs' = current_slot cs + 1"
    by blast
  show ?thesis
  proof (cases "p = -1")
    case True
    with r have "record_free cs = Inr cs1" by simp
    from scan_record_free [OF assms(1) this e] show ?thesis .
  next
    case False
    with r have "record_found dbg ti cs p = Inr cs1" by simp
    from scan_record_found [OF assms(1) this e] show ?thesis .
  qed
qed

lemma missing_bytes_sum:
  "missing_bytes ti hv = (\<Sum>q = 0..<nat (num_pieces ti). if hv ! q then 0 else piece_size ti (int q))"
  by (simp add: missing_bytes_def interv_sum_list_conv_sum_set_nat)

lemma missing_bytes_found:
  assumes "nat p < nat (num_pieces ti)" and "0 \<le> p" and "\<not> hv ! nat p"
    and "length hv = nat (num_pieces ti)"
  shows "missing_bytes ti (hv[nat p := True]) = missing_bytes ti hv - piece_size ti p"
proof -
  define n where "n = nat (num_pieces ti)"
  define f where "f = (\<lambda>q. if hv ! q then 0 else piece_size ti (int q))"
  define g where "g = (\<lambda>q. if hv[nat p := True] ! q then 0 else piece_size ti (int q))"
  have m: "nat p \<in> {0..<n}" "finite {0..<n}" using assms(1) by (simp_all add: n_def)
  have "sum g ({0..<n} - {nat p}) = sum f ({0..<n} - {nat p})"
    by (rule sum.cong) (auto simp: f_def g_def)
  moreover have "g (nat p) = 0" using assms(1,4) by (simp add: g_def)
  moreover have "f (nat p) = piece_size ti p" using assms(2,3) by (simp add: f_def)
  ultimately have "sum g {0..<n} = sum f {0..<n} - piece_size ti p"
    using sum.remove [OF m(2,1), of g] sum.remove [OF m(2,1), of f] by simp
  then show ?thesis by (simp add: missing_bytes_sum f_def g_def n_def)
qed

lemma missing_bytes_init:
  assumes "0 < num_pieces ti"
  shows "missing_bytes ti (replicate (nat (num_pieces ti)) False) = total_size ti"
proof -
  define m where "m = nat (num_pieces ti - 1)"
  have n: "nat (num_pieces ti) = Suc m" "int m = num_pieces ti - 1"
    using assms by (simp_all add: m_def)
  have "(\<Sum>q = 0..<Suc m. if replicate (Suc m) False ! q then 0 else piece_size ti (int q))
        = (\<Sum>q = 0..<Suc m. piece_size ti (int q))"
    by (rule sum.cong) (simp_all del: replicate_Suc replicate.simps)
  also have "\<dots> = (\<Sum>q = 0..<m. piece_size ti (int q)) + piece_size ti (int m)" by simp
  also have "(\<Sum>q = 0..<m. piece_size ti (int q)) = (\<Sum>q = 0..<m. piece_length ti)"
  proof (rule sum.cong)
    fix q assume "q \<in> {0..<m}"
    then have "int q < num_pieces ti - 1" using n(2) by simp
    then show "piece_size ti (int q) = piece_length ti" by (simp add: piece_size_def)
  qed simp
  also have "\<dots> = int m * piece_length ti" by simp
  also have "piece_size ti (int m) = last_piece_size ti" by (simp add: piece_size_def n)
  finally show ?thesis by (simp add: missing_bytes_sum n last_piece_size_def)
qed

lemma hash_slot_bytes:
  assumes "hash_slot sha1 dbg ti cs = Inr cs'"
    and "length (pieces cs) = nat (num_pieces ti)"
    and "length (m_piece_to_slot (mgr cs)) = nat (num_pieces ti)"
    and "m_bytes_left (mgr cs) = missing_bytes ti (pieces cs)"
  shows "length (pieces cs') = nat (num_pieces ti)
       \<and> m_bytes_left (mgr cs') = missing_bytes ti (pieces cs')"
proof -
  from hash_slot_unfold [OF assms(1)] obtain p cs1 where
    r: "(if p \<noteq> -1 then record_found dbg ti cs p else record_free cs) = Inr cs1"
    and e: "mgr cs' = mgr cs1" "pieces cs' = pieces cs1"
    by blast
  show ?thesis
  proof (cases "p = -1")
    case True
    with r have "record_free cs = Inr cs1" by simp
    from record_free_unfold [OF this] e assms(2,4) show ?thesis by simp
  next
    case False
    with r have "record_found dbg ti cs p = Inr cs1" by simp
    note u = record_found_unfold [OF this]
    show ?thesis
    proof (cases "pieces cs ! nat p")
      case True
      then have "(pieces cs)[nat p := True] = pieces cs" by (metis list_update_id)
      with u True e assms(2,4) show ?thesis by simp
    next
      case False
      from u assms(3) have "nat p < nat (num_pieces ti)" "0 \<le> p" by simp_all
      from missing_bytes_found [OF this False assms(2)] u False e assms(2,4)
      show ?thesis by simp
    qed
  qed
qed

lemma skip_loop_spec:
  assumes "skip_loop dbg ti file_end pos un cur = Inr (pos', un', cur')"
  shows "cur \<le> cur' \<and> un' = un @ [cur..cur' - 1]"
  using assms
proof (induction dbg ti file_end pos un cur rule: skip_loop.induct)
  case (1 dbg ti file_end pos un cur)
  show ?case
  proof (cases "pos < file_end")
    case False
    with "1.prems" show ?thesis by (simp add: skip_loop.simps)
  next
    case True
    with "1.prems" have pl: "\<not> piece_length ti \<le> 0"
      and r: "skip_loop dbg ti file_end (pos + piece_length ti) (un @ [cur]) (cur + 1)
              = Inr (pos', un', cur')"
      by (auto simp: skip_loop.simps [of dbg ti file_end pos un cur] expect_def
               split: if_splits)
    from "1.IH" [OF True pl r] have a: "cur + 1 \<le> cur'" "un' = (un @ [cur]) @ [cur + 1..cur' - 1]"
      by simp_all
    have "[cur..cur' - 1] = cur # [cur + 1..cur' - 1]" using a(1) by (simp add: upto_rec1)
    with a show ?thesis by simp
  qed
qed

lemma next_file_unfold:
  assumes "next_file dbg ti f rest cs n = Inr cs'"
  shows "\<exists>cur'. current_slot cs \<le> cur' \<and> current_slot cs' = cur'
       \<and> m_unallocated_slots (mgr cs') = m_unallocated_slots (mgr cs) @ [current_slot cs..cur' - 1]
       \<and> m_piece_to_slot (mgr cs') = m_piece_to_slot (mgr cs)
       \<and> m_slot_to_piece (mgr cs') = m_slot_to_piece (mgr cs)
       \<and> m_free_slots (mgr cs') = m_free_slots (mgr cs)
       \<and> m_bytes_left (mgr cs') = m_bytes_left (mgr cs)
       \<and> pieces cs' = pieces cs"
proof (cases "bytes_current_read cs \<noteq> file_size f")
  case True
  with assms obtain pos un cur where
    s: "skip_loop dbg ti (start_of_file cs + file_size f) (start_of_read cs)
          (m_unallocated_slots (mgr cs)) (current_slot cs) = Inr (pos, un, cur)"
    and c: "cs' = cs\<lparr>mgr := (mgr cs)\<lparr>m_unallocated_slots := un\<rparr>,
                           current_slot := cur,
                           seek_into_next := pos - (start_of_file cs + file_size f),
                           bytes_to_read := piece_size ti cur, piece_offset := 0,
                           changed_file := True,
                           start_of_file := start_of_file cs + file_size f,
                           file_iter := rest\<rparr>"
    by (auto simp: next_file_def Let_def split: sum.splits)
  from skip_loop_spec [OF s] show ?thesis by (simp add: c)
next
  case False
  with assms have "cs' = cs\<lparr>seek_into_next := 0, piece_offset := piece_offset cs + n,
       changed_file := True, start_of_file := start_of_file cs + file_size f,
       file_iter := rest\<rparr>"
    by (auto simp: next_file_def)
  then show ?thesis by (simp add: upto_empty)
qed

lemma next_file_scan:
  assumes "scan_ok ti cs" and "next_file dbg ti f rest cs n = Inr cs'"
  shows "scan_ok ti cs'"
proof -
  define s2p where "s2p = m_slot_to_piece (mgr cs)"
  define un where "un = m_unallocated_slots (mgr cs)"
  define cur where "cur = current_slot cs"
  note d = scan_okD [OF assms(1), folded s2p_def un_def cur_def]
  from next_file_unfold [OF assms(2)] obtain cur' where c: "cur \<le> cur'"
    and new: "current_slot cs' = cur'" "m_unallocated_slots (mgr cs') = un @ [cur..cur' - 1]"
      "m_piece_to_slot (mgr cs') = m_piece_to_slot (mgr cs)"
      "m_slot_to_piece (mgr cs') = s2p" "m_free_slots (mgr cs') = m_free_slots (mgr cs)"
      "pieces cs' = pieces cs"
    unfolding s2p_def un_def cur_def by blast
  show ?thesis
  proof (rule scan_okI; unfold new)
    show "maps_ok (nat (num_pieces ti)) (m_piece_to_slot (mgr cs)) s2p" by (rule d(1))
    show "slots_marked (-2) s2p (m_free_slots (mgr cs))" by (rule d(2))
    show "\<forall>s\<in>set (m_free_slots (mgr cs)). nat s < length s2p" by (rule d(3))
    show "slots_marked (-1) s2p (un @ [cur..cur' - 1])"
      unfolding slots_marked_def
    proof (intro conjI ballI)
      show "distinct (un @ [cur..cur' - 1])"
        using d(4,8) by (auto simp: slots_marked_def)
      fix s assume s: "s \<in> set (un @ [cur..cur' - 1])"
      show "0 \<le> s" using s d(4,5) by (auto simp: slots_marked_def)
      show "nat s < length s2p \<longrightarrow> s2p ! nat s = -1"
      proof (cases "s \<in> set un")
        case True
        with d(4) show ?thesis by (auto simp: slots_marked_def)
      next
        case False
        with s have "cur \<le> s" by simp
        then have "cur \<le> int (nat s)" using d(5) by simp
        with d(6) show ?thesis by blast
      qed
    qed
    show "0 \<le> cur'" using d(5) c by simp
    show "\<forall>s<length s2p. cur' \<le> int s \<longrightarrow> s2p ! s = -1" using d(6) c by auto
    show "\<forall>s\<in>set (m_free_slots (mgr cs)). s < cur'" using d(7) c by auto
    show "\<forall>s\<in>set (un @ [cur..cur' - 1]). s < cur'" using d(8) c by auto
    show "\<forall>p<length (m_piece_to_slot (mgr cs)).
        m_piece_to_slot (mgr cs) ! p \<noteq> -1 \<longrightarrow> p < length (pieces cs) \<and> pieces cs ! p"
      by (rule d(9))
  qed
qed

lemma read_piece_data_same:
  assumes "read_piece_data ti f cs = Inr (cs3, n)"
  shows "tables (mgr cs3) = tables (mgr cs) \<and> m_bytes_left (mgr cs3) = m_bytes_left (mgr cs)
       \<and> pieces cs3 = pieces cs \<and> current_slot cs3 = current_slot cs
       \<and> file_iter cs3 = file_iter cs \<and> abort_reads cs3 = abort_reads cs"
proof -
  define cs2 where "cs2 = mark_start ti (open_next f (create_path f cs))"
  have cs2: "tables (mgr cs2) = tables (mgr cs)" "m_bytes_left (mgr cs2) = m_bytes_left (mgr cs)"
    "pieces cs2 = pieces cs" "current_slot cs2 = current_slot cs"
    "file_iter cs2 = file_iter cs" "abort_reads cs2 = abort_reads cs"
    by (simp_all add: cs2_def mark_start_def open_next_def create_path_def tables_def Let_def)
  from assms obtain data m where "cs3 = cs2\<lparr>piece_data := data, in_pos := in_pos cs2 + m,
                     bytes_current_read := bytes_current_read cs2 + m,
                     bytes_to_read := bytes_to_read cs2 - m\<rparr>"
    unfolding read_piece_data_def fill_buffer_def Let_def cs2_def [symmetric]
    by (cases "store (piece_data cs2) (piece_offset cs2)
      (if filesize cs2 > 0 then istream_read (in_file cs2) (in_pos cs2) (bytes_to_read cs2)
       else [])") auto
  then show ?thesis by (simp add: cs2)
qed

lemma scan_ok_cong:
  assumes "tables (mgr cs') = tables (mgr cs)" and "pieces cs' = pieces cs"
    and "current_slot cs' = current_slot cs"
  shows "scan_ok ti cs' = scan_ok ti cs"
  using assms by (simp add: scan_ok_def tables_ok_def tables_def)

lemma check_body_unfold:
  assumes "check_body sha1 dbg ti f rest cs = Inr cs'"
  shows "\<exists>cs3 n. read_piece_data ti f cs = Inr (cs3, n)
       \<and> (if bytes_to_read cs3 > 0 then next_file dbg ti f rest cs3 n
           else hash_slot sha1 dbg ti cs3) = Inr cs'"
proof -
  from assms have k: "(case read_piece_data ti f cs of
          Inl e \<Rightarrow> Inl e
        | Inr (cs3, bytes_read) \<Rightarrow>
            if bytes_to_read cs3 > 0 then next_file dbg ti f rest cs3 bytes_read
            else hash_slot sha1 dbg ti cs3) = Inr cs'"
    by (auto simp: check_body_def expect_def split: if_splits)
  show ?thesis
  proof (cases "read_piece_data ti f cs")
    case (Inl e)
    then show ?thesis using k by simp
  next
    case (Inr x)
    obtain a b where x: "x = (a, b)" by (cases x)
    with Inr k show ?thesis
      by (intro exI [of _ a] exI [of _ b]) simp
  qed
qed

lemma check_body_scan:
  assumes "scan_ok ti cs" and "check_body sha1 dbg ti f rest cs = Inr cs'"
  shows "scan_ok ti cs'"
proof -
  from check_body_unfold [OF assms(2)] obtain cs3 n where
    r: "read_piece_data ti f cs = Inr (cs3, n)"
    and k: "(if bytes_to_read cs3 > 0 then next_file dbg ti f rest cs3 n
           else hash_slot sha1 dbg ti cs3) = Inr cs'"
    by blast
  from read_piece_data_same [OF r] assms(1) have s3: "scan_ok ti cs3"
    using scan_ok_cong [of cs3 cs ti] by simp
  show ?thesis
  proof (cases "bytes_to_read cs3 > 0")
    case True
    with k have "next_file dbg ti f rest cs3 n = Inr cs'" by simp
    from next_file_scan [OF s3 this] show ?thesis .
  next
    case False
    with k have "hash_slot sha1 dbg ti cs3 = Inr cs'" by simp
    from hash_slot_scan [OF s3 this] show ?thesis .
  qed
qed

lemma check_loop_scan:
  assumes "check_loop sha1 dbg ti cs = Inr (aborted, cs')" and "scan_ok ti cs"
  shows "scan_ok ti cs'"
  using assms
proof (induction sha1 dbg ti cs rule: check_loop.induct)
  case (1 sha1 dbg ti cs)
  show ?case
  proof (cases "file_iter cs")
    case Nil
    with "1.prems" show ?thesis by (simp add: check_loop.simps [of sha1 dbg ti cs])
  next
    case (Cons f rest)
    show ?thesis
    proof (cases "abort_reads cs \<noteq> [] \<and> hd (abort_reads cs)")
      case True
      with Cons "1.prems" show ?thesis by (simp add: check_loop.simps [of sha1 dbg ti cs])
    next
      case False
      with Cons "1.prems"(1) obtain cs1 where
        b: "check_body sha1 dbg ti f rest (cs\<lparr>abort_reads := tl (abort_reads cs)\<rparr>) = Inr cs1"
        and l: "check_loop sha1 dbg ti cs1 = Inr (aborted, cs')"
        by (auto simp: check_loop.simps [of sha1 dbg ti cs] split: sum.splits)
      have "scan_ok ti (cs\<lparr>abort_reads := tl (abort_reads cs)\<rparr>)"
        using "1.prems"(2) scan_ok_cong [of "cs\<lparr>abort_reads := tl (abort_reads cs)\<rparr>" cs ti]
        by simp
      from check_body_scan [OF this b] have "scan_ok ti cs1" .
      from "1.IH" [OF Cons False b l this] show ?thesis .
    qed
  qed
qed

lemma check_body_bytes:
  assumes "check_body sha1 dbg ti f rest cs = Inr cs'"
    and "length (pieces cs) = nat (num_pieces ti)"
    and "length (m_piece_to_slot (mgr cs)) = nat (num_pieces ti)"
    and "m_bytes_left (mgr cs) = missing_bytes ti (pieces cs)"
  shows "length (pieces cs') = nat (num_pieces ti)
       \<and> m_bytes_left (mgr cs') = missing_bytes ti (pieces cs')"
proof -
  from check_body_unfold [OF assms(1)] obtain cs3 n where
    r: "read_piece_data ti f cs = Inr (cs3, n)"
    and k: "(if bytes_to_read cs3 > 0 then next_file dbg ti f rest cs3 n
           else hash_slot sha1 dbg ti cs3) = Inr cs'"
    by blast
  note s = read_piece_data_same [OF r]
  show ?thesis
  proof (cases "bytes_to_read cs3 > 0")
    case True
    with k have "next_file dbg ti f rest cs3 n = Inr cs'" by simp
    from next_file_unfold [OF this] s assms(2,4) show ?thesis by auto
  next
    case False
    with k have "hash_slot sha1 dbg ti cs3 = Inr cs'" by simp
    from hash_slot_bytes [OF this] s assms(2,3,4) show ?thesis by (simp add: tables_def)
  qed
qed

lemma scan_ok_length:
  assumes "scan_ok ti cs"
  shows "length (m_piece_to_slot (mgr cs)) = nat (num_pieces ti)"
  using maps_ok_length [OF scan_okD(1) [OF assms]] by simp

lemma check_loop_bytes:
  assumes "check_loop sha1 dbg ti cs = Inr (aborted, cs')" and "scan_ok ti cs"
    and "length (pieces cs) = nat (num_pieces ti)"
    and "m_bytes_left (mgr cs) = missing_bytes ti (pieces cs)"
  shows "length (pieces cs') = nat (num_pieces ti)
       \<and> m_bytes_left (mgr cs') = missing_bytes ti (pieces cs')"
  using assms
proof (induction sha1 dbg ti cs rule: check_loop.induct)
  case (1 sha1 dbg ti cs)
  show ?case
  proof (cases "file_iter cs")
    case Nil
    with "1.prems" show ?thesis by (simp add: check_loop.simps [of sha1 dbg ti cs])
  next
    case (Cons f rest)
    show ?thesis
    proof (cases "abort_reads cs \<noteq> [] \<and> hd (abort_reads cs)")
      case True
      with Cons "1.prems" show ?thesis by (simp add: check_loop.simps [of sha1 dbg ti cs])
    next
      case False
      define cs0 where "cs0 = cs\<lparr>abort_reads := tl (abort_reads cs)\<rparr>"
      from False Cons "1.prems"(1) obtain cs1 where
        b: "check_body sha1 dbg ti f rest cs0 = Inr cs1"
        and l: "check_loop sha1 dbg ti cs1 = Inr (aborted, cs')"
        by (auto simp: check_loop.simps [of sha1 dbg ti cs] cs0_def split: sum.splits)
      have s0: "scan_ok ti cs0"
        using "1.prems"(2) scan_ok_cong [of cs0 cs ti] by (simp add: cs0_def)
      from check_body_scan [OF s0 b] have s1: "scan_ok ti cs1" .
      have "length (pieces cs0) = nat (num_pieces ti)"
        "length (m_piece_to_slot (mgr cs0)) = nat (num_pieces ti)"
        "m_bytes_left (mgr cs0) = missing_bytes ti (pieces cs0)"
        using "1.prems"(3,4) scan_ok_length [OF s0] by (simp_all add: cs0_def)
      from check_body_bytes [OF b this]
      have b1: "length (pieces cs1) = nat (num_pieces ti)"
        "m_bytes_left (mgr cs1) = missing_bytes ti (pieces cs1)" by simp_all
      from "1.IH" [OF Cons False b [unfolded cs0_def] l s1 b1] show ?thesis .
    qed
  qed
qed

lemma scan_ok_start:
  "scan_ok ti (check_start ti (impl d) hv aborts)"
proof (rule scan_okI)
  define n where "n = nat (num_pieces ti)"
  have t: "m_piece_to_slot (mgr (check_start ti (impl d) hv aborts)) = replicate n (-1)"
    "m_slot_to_piece (mgr (check_start ti (impl d) hv aborts)) = replicate n (-1)"
    "m_free_slots (mgr (check_start ti (impl d) hv aborts)) = []"
    "m_unallocated_slots (mgr (check_start ti (impl d) hv aborts)) = []"
    "current_slot (check_start ti (impl d) hv aborts) = 0"
    by (simp_all add: check_start_def impl_def resize_def n_def)
  show "maps_ok (nat (num_pieces ti)) (m_piece_to_slot (mgr (check_start ti (impl d) hv aborts)))
     (m_slot_to_piece (mgr (check_start ti (impl d) hv aborts)))"
    unfolding t n_def [symmetric] by (simp add: maps_ok_def)
  show "slots_marked (-2) (m_slot_to_piece (mgr (check_start ti (impl d) hv aborts)))
     (m_free_slots (mgr (check_start ti (impl d) hv aborts)))"
    unfolding t by (simp add: slots_marked_def)
  show "\<forall>s\<in>set (m_free_slots (mgr (check_start ti (impl d) hv aborts))).
       nat s < length (m_slot_to_piece (mgr (check_start ti (impl d) hv aborts)))"
    unfolding t by simp
  show "slots_marked (-1) (m_slot_to_piece (mgr (check_start ti (impl d) hv aborts)))
     (m_unallocated_slots (mgr (check_start ti (impl d) hv aborts)))"
    unfolding t by (simp add: slots_marked_def)
  show "0 \<le> current_slot (check_start ti (impl d) hv aborts)" unfolding t by simp
  show "\<forall>s<length (m_slot_to_piece (mgr (check_start ti (impl d) hv aborts))).
       current_slot (check_start ti (impl d) hv aborts) \<le> int s \<longrightarrow>
       m_slot_to_piece (mgr (check_start ti (impl d) hv aborts)) ! s = -1"
    unfolding t by simp
  show "\<forall>s\<in>set (m_free_slots (mgr (check_start ti (impl d) hv aborts))).
       s < current_slot (check_start ti (impl d) hv aborts)"
    unfolding t by simp
  show "\<forall>s\<in>set (m_unallocated_slots (mgr (check_start ti (impl d) hv aborts))).
       s < current_slot (check_start ti (impl d) hv aborts)"
    unfolding t by simp
  show "\<forall>p<length (m_piece_to_slot (mgr (check_start ti (impl d) hv aborts))).
       m_piece_to_slot (mgr (check_start ti (impl d) hv aborts)) ! p \<noteq> -1 \<longrightarrow>
       p < length (pieces (check_start ti (impl d) hv aborts)) \<and>
       pieces (check_start ti (impl d) hv aborts) ! p"
    unfolding t by simp
qed

lemma check_pieces_unfold:
  assumes "check_pieces sha1 dbg ti pm hv aborts = Inr (pm', hv')"
  shows "\<exists>aborted cs. check_loop sha1 dbg ti (check_start ti pm hv aborts) = Inr (aborted, cs)
           \<and> pm' = mgr cs \<and> hv' = pieces cs"
  using assms unfolding check_pieces_def
  by (auto split: sum.splits if_splits)

lemma scan_ok_tables: "scan_ok ti cs \<Longrightarrow> tables_ok ti (mgr cs)"
  by (simp add: scan_ok_def)

lemma check_pieces_tables:
  assumes "check_pieces sha1 dbg ti (impl d) hv aborts = Inr (pm, hv')"
  shows "tables_ok ti pm"
proof -
  from check_pieces_unfold [OF assms] obtain aborted cs where
    l: "check_loop sha1 dbg ti (check_start ti (impl d) hv aborts) = Inr (aborted, cs)"
    and e: "pm = mgr cs" by blast
  from check_loop_scan [OF l scan_ok_start] e show ?thesis by (simp add: scan_ok_tables)
qed

lemma check_pieces_bytes:
  assumes "check_pieces sha1 dbg ti (impl d) (replicate (nat (num_pieces ti)) False) aborts
             = Inr (pm, hv')"
    and "0 < num_pieces ti"
  shows "length hv' = nat (num_pieces ti) \<and> m_bytes_left pm = missing_bytes ti hv'"
proof -
  define hv where "hv = replicate (nat (num_pieces ti)) False"
  from check_pieces_unfold [OF assms(1)] obtain aborted cs where
    l: "check_loop sha1 dbg ti (check_start ti (impl d) hv aborts) = Inr (aborted, cs)"
    and e: "pm = mgr cs" "hv' = pieces cs" unfolding hv_def by blast
  have "length (pieces (check_start ti (impl d) hv aborts)) = nat (num_pieces ti)"
    "m_bytes_left (mgr (check_start ti (impl d) hv aborts))
       = missing_bytes ti (pieces (check_start ti (impl d) hv aborts))"
    using missing_bytes_init [OF assms(2)] by (simp_all add: check_start_def hv_def)
  from check_loop_bytes [OF l scan_ok_start this] e show ?thesis by simp
qed

subsection \<open>The directories after check_pieces\<close>

text \<open>
  \<^verbatim>\<open>check_pieces\<close> creates the directory of each file it comes to, and changes nothing
  else of the file system. After a scan that was not aborted every file of the torrent has
  its directory, so that \<^verbatim>\<open>storage::write\<close> can create the files that are missing.
\<close>

lemma record_free_storage:
  assumes "record_free cs = Inr cs1"
  shows "m_storage (mgr cs1) = m_storage (mgr cs) \<and> file_iter cs1 = file_iter cs
       \<and> abort_reads cs1 = abort_reads cs"
proof -
  from assms obtain s2p where
    c: "cs1 = cs\<lparr>mgr := (mgr cs)\<lparr>m_slot_to_piece := s2p,
                          m_free_slots := m_free_slots (mgr cs) @ [current_slot cs]\<rparr>\<rparr>"
    by (auto simp: record_free_def Let_def split: sum.splits)
  then show ?thesis by simp
qed

lemma record_found_storage:
  assumes "record_found dbg ti cs p = Inr cs1"
  shows "m_storage (mgr cs1) = m_storage (mgr cs) \<and> file_iter cs1 = file_iter cs
       \<and> abort_reads cs1 = abort_reads cs"
proof -
  from assms obtain h where h: "at (pieces cs) p = Inr h"
    by (auto simp: record_found_def Let_def split: sum.splits)
  with assms show ?thesis
    by (cases h) (auto simp: record_found_def Let_def expect_def split: sum.splits if_splits)
qed

lemma hash_slot_storage:
  assumes "hash_slot sha1 dbg ti cs = Inr cs'"
  shows "m_storage (mgr cs') = m_storage (mgr cs) \<and> file_iter cs' = file_iter cs
       \<and> abort_reads cs' = abort_reads cs"
proof -
  from hash_slot_unfold [OF assms] obtain p cs1 where
    r: "(if p \<noteq> -1 then record_found dbg ti cs p else record_free cs) = Inr cs1"
    and e: "mgr cs' = mgr cs1" "file_iter cs' = file_iter cs1" "abort_reads cs' = abort_reads cs1"
    by blast
  show ?thesis
  proof (cases "p \<noteq> -1")
    case True
    with r have "record_found dbg ti cs p = Inr cs1" by simp
    from record_found_storage [OF this] e show ?thesis by simp
  next
    case False
    with r have "record_free cs = Inr cs1" by simp
    from record_free_storage [OF this] e show ?thesis by simp
  qed
qed

lemma next_file_storage:
  assumes "next_file dbg ti f rest cs n = Inr cs'"
  shows "m_storage (mgr cs') = m_storage (mgr cs) \<and> file_iter cs' = rest
       \<and> abort_reads cs' = abort_reads cs"
proof (cases "bytes_current_read cs \<noteq> file_size f")
  case True
  with assms obtain pos un cur where
    c: "cs' = cs\<lparr>mgr := (mgr cs)\<lparr>m_unallocated_slots := un\<rparr>,
                           current_slot := cur,
                           seek_into_next := pos - (start_of_file cs + file_size f),
                           bytes_to_read := piece_size ti cur, piece_offset := 0,
                           changed_file := True,
                           start_of_file := start_of_file cs + file_size f,
                           file_iter := rest\<rparr>"
    by (auto simp: next_file_def Let_def split: sum.splits)
  then show ?thesis by simp
next
  case False
  with assms have "cs' = cs\<lparr>seek_into_next := 0, piece_offset := piece_offset cs + n,
       changed_file := True, start_of_file := start_of_file cs + file_size f,
       file_iter := rest\<rparr>"
    by (auto simp: next_file_def)
  then show ?thesis by simp
qed

lemma read_piece_data_dirs:
  assumes "read_piece_data ti f cs = Inr (cs3, n)"
  shows "path f \<in> dirs (m_storage (mgr cs3))
       \<and> dirs (m_storage (mgr cs)) \<subseteq> dirs (m_storage (mgr cs3))
       \<and> contents (m_storage (mgr cs3)) = contents (m_storage (mgr cs))"
proof -
  define cs2 where "cs2 = mark_start ti (open_next f (create_path f cs))"
  have "path f \<in> set (prefixes (path f))" by (simp add: in_set_prefixes)
  then have cs2: "path f \<in> dirs (m_storage (mgr cs2))"
    "dirs (m_storage (mgr cs)) \<subseteq> dirs (m_storage (mgr cs2))"
    "contents (m_storage (mgr cs2)) = contents (m_storage (mgr cs))"
    by (auto simp: cs2_def mark_start_def open_next_def create_path_def create_directories_def
          Let_def)
  from assms obtain data m where "cs3 = cs2\<lparr>piece_data := data, in_pos := in_pos cs2 + m,
                     bytes_current_read := bytes_current_read cs2 + m,
                     bytes_to_read := bytes_to_read cs2 - m\<rparr>"
    unfolding read_piece_data_def fill_buffer_def Let_def cs2_def [symmetric]
    by (cases "store (piece_data cs2) (piece_offset cs2)
      (if filesize cs2 > 0 then istream_read (in_file cs2) (in_pos cs2) (bytes_to_read cs2)
       else [])") auto
  then have "mgr cs3 = mgr cs2" by simp
  with cs2 show ?thesis by simp
qed

lemma check_body_dirs:
  assumes "check_body sha1 dbg ti f rest cs = Inr cs'" and "file_iter cs = f # rest"
  shows "path f \<in> dirs (m_storage (mgr cs'))
       \<and> dirs (m_storage (mgr cs)) \<subseteq> dirs (m_storage (mgr cs'))
       \<and> contents (m_storage (mgr cs')) = contents (m_storage (mgr cs))
       \<and> (file_iter cs' = f # rest \<or> file_iter cs' = rest)
       \<and> abort_reads cs' = abort_reads cs"
proof -
  from check_body_unfold [OF assms(1)] obtain cs3 n where
    r: "read_piece_data ti f cs = Inr (cs3, n)"
    and k: "(if bytes_to_read cs3 > 0 then next_file dbg ti f rest cs3 n
           else hash_slot sha1 dbg ti cs3) = Inr cs'"
    by blast
  note d = read_piece_data_dirs [OF r]
  note s = read_piece_data_same [OF r]
  show ?thesis
  proof (cases "bytes_to_read cs3 > 0")
    case True
    with k have "next_file dbg ti f rest cs3 n = Inr cs'" by simp
    from next_file_storage [OF this] d s show ?thesis by simp
  next
    case False
    with k have "hash_slot sha1 dbg ti cs3 = Inr cs'" by simp
    from hash_slot_storage [OF this] d s assms(2) show ?thesis by simp
  qed
qed

lemma check_loop_dirs:
  assumes "check_loop sha1 dbg ti cs = Inr (aborted, cs')"
    and "\<forall>f\<in>set fs. f \<in> set (file_iter cs) \<or> path f \<in> dirs (m_storage (mgr cs))"
  shows "(\<forall>f\<in>set fs. f \<in> set (file_iter cs') \<or> path f \<in> dirs (m_storage (mgr cs')))
       \<and> contents (m_storage (mgr cs')) = contents (m_storage (mgr cs))
       \<and> (\<not> aborted \<longrightarrow> file_iter cs' = [])
       \<and> (True \<notin> set (abort_reads cs) \<longrightarrow> \<not> aborted)"
  using assms
proof (induction sha1 dbg ti cs rule: check_loop.induct)
  case (1 sha1 dbg ti cs)
  show ?case
  proof (cases "file_iter cs")
    case Nil
    with "1.prems" show ?thesis by (simp add: check_loop.simps [of sha1 dbg ti cs])
  next
    case (Cons f rest)
    show ?thesis
    proof (cases "abort_reads cs \<noteq> [] \<and> hd (abort_reads cs)")
      case True
      then have "True \<in> set (abort_reads cs)" by (cases "abort_reads cs") auto
      with True Cons "1.prems" show ?thesis
        by (simp add: check_loop.simps [of sha1 dbg ti cs])
    next
      case False
      define cs0 where "cs0 = cs\<lparr>abort_reads := tl (abort_reads cs)\<rparr>"
      from False Cons "1.prems"(1) obtain cs1 where
        b: "check_body sha1 dbg ti f rest cs0 = Inr cs1"
        and l: "check_loop sha1 dbg ti cs1 = Inr (aborted, cs')"
        unfolding cs0_def
        by (auto simp: check_loop.simps [of sha1 dbg ti cs] split: sum.splits)
      have fi: "file_iter cs0 = f # rest" using Cons by (simp add: cs0_def)
      note d = check_body_dirs [OF b fi]
      have i1: "\<forall>g\<in>set fs. g \<in> set (file_iter cs1) \<or> path g \<in> dirs (m_storage (mgr cs1))"
      proof
        fix g assume "g \<in> set fs"
        with "1.prems"(2) Cons have "g = f \<or> g \<in> set rest
            \<or> path g \<in> dirs (m_storage (mgr cs))" by auto
        then show "g \<in> set (file_iter cs1) \<or> path g \<in> dirs (m_storage (mgr cs1))"
          using d by (auto simp: cs0_def)
      qed
      note ih = "1.IH" [OF Cons False b [unfolded cs0_def] l i1]
      have "set (abort_reads cs1) \<subseteq> set (abort_reads cs)"
        using d by (cases "abort_reads cs") (auto simp: cs0_def)
      with ih d show ?thesis by (auto simp: cs0_def)
    qed
  qed
qed

lemma check_pieces_dirs:
  assumes "check_pieces sha1 dbg ti pm hv aborts = Inr (pm', hv')" and "True \<notin> set aborts"
  shows "(\<forall>f\<in>set (files ti). path f \<in> dirs (m_storage pm'))
       \<and> contents (m_storage pm') = contents (m_storage pm)"
proof -
  from check_pieces_unfold [OF assms(1)] obtain aborted cs where
    l: "check_loop sha1 dbg ti (check_start ti pm hv aborts) = Inr (aborted, cs)"
    and e: "pm' = mgr cs" by blast
  have "\<forall>f\<in>set (files ti). f \<in> set (file_iter (check_start ti pm hv aborts))
          \<or> path f \<in> dirs (m_storage (mgr (check_start ti pm hv aborts)))"
    by (simp add: check_start_def)
  from check_loop_dirs [OF l this] assms(2) e show ?thesis
    by (auto simp: check_start_def)
qed

subsection \<open>The invariant of the manager\<close>

lemma allocate_one_unfold:
  assumes "allocate_one dbg ti (pm, zeros) pos = Inr (pm', zeros')"
  shows "0 \<le> pos \<and> nat pos < length (m_piece_to_slot pm)
       \<and> m_unallocated_slots pm' = m_unallocated_slots pm
       \<and> m_bytes_left pm' = m_bytes_left pm
       \<and> (m_piece_to_slot pm ! nat pos = -1 \<longrightarrow>
            nat pos < length (m_slot_to_piece pm)
            \<and> m_slot_to_piece pm' = (m_slot_to_piece pm)[nat pos := -2]
            \<and> m_piece_to_slot pm' = m_piece_to_slot pm
            \<and> m_free_slots pm' = m_free_slots pm @ [pos])
       \<and> (m_piece_to_slot pm ! nat pos \<noteq> -1 \<longrightarrow>
            nat pos < length (m_slot_to_piece pm)
            \<and> 0 \<le> m_piece_to_slot pm ! nat pos
            \<and> nat (m_piece_to_slot pm ! nat pos) < length (m_slot_to_piece pm)
            \<and> m_slot_to_piece pm' =
                (m_slot_to_piece pm)[nat pos := pos, nat (m_piece_to_slot pm ! nat pos) := -2]
            \<and> m_piece_to_slot pm' = (m_piece_to_slot pm)[nat pos := pos]
            \<and> m_free_slots pm' = m_free_slots pm @ [m_piece_to_slot pm ! nat pos])"
proof -
  from assms obtain src where s: "at (m_piece_to_slot pm) pos = Inr src"
    by (auto simp: allocate_one_def split: sum.splits)
  note sp = at_Inr [OF s]
  show ?thesis
  proof (cases "src = -1")
    case True
    with assms s obtain s2p where
      p: "put (m_slot_to_piece pm) pos (-2) = Inr s2p"
      and c: "m_slot_to_piece pm' = s2p" "m_piece_to_slot pm' = m_piece_to_slot pm"
        "m_free_slots pm' = m_free_slots pm @ [pos]"
        "m_unallocated_slots pm' = m_unallocated_slots pm" "m_bytes_left pm' = m_bytes_left pm"
      by (auto simp: allocate_one_def split: sum.splits)
    from put_Inr [OF p] sp True show ?thesis by (simp add: c)
  next
    case False
    with assms s obtain s2p p2s s2p' where
      p1: "put (m_slot_to_piece pm) pos pos = Inr s2p"
      and p2: "put (m_piece_to_slot pm) pos pos = Inr p2s"
      and p3: "put s2p src (-2) = Inr s2p'"
      and c: "m_slot_to_piece pm' = s2p'" "m_piece_to_slot pm' = p2s"
        "m_free_slots pm' = m_free_slots pm @ [src]"
        "m_unallocated_slots pm' = m_unallocated_slots pm" "m_bytes_left pm' = m_bytes_left pm"
      by (auto simp: allocate_one_def expect_def split: sum.splits if_splits)
    from put_Inr [OF p1] put_Inr [OF p2] put_Inr [OF p3] sp False show ?thesis
      by (simp add: c)
  qed
qed

lemma slots_marked_nth:
  assumes "slots_marked v s2p slots" and "s \<in> set slots" and "nat s < length s2p"
  shows "s2p ! nat s = v" and "0 \<le> s"
  using assms by (auto simp: slots_marked_def)

lemma slots_marked_tl:
  assumes "slots_marked v s2p (s # slots)"
  shows "slots_marked v s2p slots" and "s \<notin> set slots"
  using assms by (auto simp: slots_marked_def)

lemma allocate_one_tables:
  assumes "allocate_one dbg ti (pm, zeros) pos = Inr (pm', zeros')"
    and "maps_ok n (m_piece_to_slot pm) (m_slot_to_piece pm)"
    and "slots_marked (-2) (m_slot_to_piece pm) (m_free_slots pm)"
    and "\<forall>s\<in>set (m_free_slots pm). nat s < length (m_slot_to_piece pm)"
    and "slots_marked (-1) (m_slot_to_piece pm) (pos # rest)"
  shows "maps_ok n (m_piece_to_slot pm') (m_slot_to_piece pm')
       \<and> slots_marked (-2) (m_slot_to_piece pm') (m_free_slots pm')
       \<and> (\<forall>s\<in>set (m_free_slots pm'). nat s < length (m_slot_to_piece pm'))
       \<and> slots_marked (-1) (m_slot_to_piece pm') rest
       \<and> m_unallocated_slots pm' = m_unallocated_slots pm"
proof -
  define p2s where "p2s = m_piece_to_slot pm"
  define s2p where "s2p = m_slot_to_piece pm"
  define fr where "fr = m_free_slots pm"
  note u = allocate_one_unfold [OF assms(1), folded p2s_def s2p_def fr_def]
  note m = assms(2) [folded p2s_def s2p_def]
  note F = assms(3) [folded s2p_def fr_def]
  note Fb = assms(4) [folded s2p_def fr_def]
  note R = assms(5) [folded s2p_def]
  have l: "length p2s = n" "length s2p = n" using maps_ok_length [OF m] by simp_all
  from u l have pos: "0 \<le> pos" "nat pos < n" by simp_all
  have ipos: "int (nat pos) = pos" using pos by simp
  have sp: "s2p ! nat pos = -1" using slots_marked_nth(1) [OF R, of pos] pos l by simp
  have pnf: "pos \<notin> set fr"
  proof
    assume "pos \<in> set fr"
    from slots_marked_nth(1) [OF F this] pos l sp show False by simp
  qed
  note R' = slots_marked_tl [OF R]
  show ?thesis
  proof (cases "p2s ! nat pos = -1")
    case True
    with u have new: "m_slot_to_piece pm' = s2p[nat pos := -2]" "m_piece_to_slot pm' = p2s"
      "m_free_slots pm' = fr @ [pos]" "m_unallocated_slots pm' = m_unallocated_slots pm"
      by simp_all
    have "maps_ok n p2s (s2p[nat pos := -2])"
      using maps_ok_mark [OF m pos(2)] sp by simp
    moreover have "slots_marked (-2) (s2p[nat pos := -2]) (fr @ [pos])"
    proof (rule slots_marked_snoc)
      show "slots_marked (-2) (s2p[nat pos := -2]) fr"
        using slots_marked_update [OF F, of "nat pos"] pnf ipos by simp
    qed (use pnf pos l in simp_all)
    moreover have "\<forall>s\<in>set (fr @ [pos]). nat s < length (s2p[nat pos := -2])"
      using Fb pos l by simp
    moreover have "slots_marked (-1) (s2p[nat pos := -2]) rest"
      using slots_marked_update [OF R'(1), of "nat pos"] R'(2) ipos by simp
    ultimately show ?thesis by (simp add: new)
  next
    case False
    define src where "src = p2s ! nat pos"
    from u False have src: "0 \<le> src" "nat src < n"
      and new: "m_slot_to_piece pm' = s2p[nat pos := pos, nat src := -2]"
        "m_piece_to_slot pm' = p2s[nat pos := pos]"
        "m_free_slots pm' = fr @ [src]" "m_unallocated_slots pm' = m_unallocated_slots pm"
      using l by (simp_all add: src_def)
    have isrc: "int (nat src) = src" using src by simp
    have "p2s ! nat pos = int (nat src)" using isrc by (simp add: src_def)
    from maps_ok_unassign [OF m pos(2) this, of "-2"]
    have m1: "maps_ok n (p2s[nat pos := -1]) (s2p[nat src := -2])"
      and ss: "s2p ! nat src = pos" using ipos by simp_all
    have ne: "nat src \<noteq> nat pos" using ss sp pos by auto
    have "s2p[nat src := -2] ! nat pos < 0" using ne sp by simp
    from maps_ok_assign [OF m1 pos(2) pos(2) _ this]
    have "maps_ok n (p2s[nat pos := pos]) (s2p[nat src := -2, nat pos := pos])"
      using pos l by simp
    then have m2: "maps_ok n (p2s[nat pos := pos]) (s2p[nat pos := pos, nat src := -2])"
      using ne by (simp add: list_update_swap)
    have snf: "src \<notin> set fr"
    proof
      assume "src \<in> set fr"
      from slots_marked_nth(1) [OF F this] src l ss pos show False by simp
    qed
    have snr: "src \<notin> set rest"
    proof
      assume "src \<in> set rest"
      from slots_marked_nth(1) [OF R'(1) this] src l ss pos show False by simp
    qed
    have "slots_marked (-2) (s2p[nat pos := pos]) fr"
      using slots_marked_update [OF F, of "nat pos"] pnf ipos by simp
    then have "slots_marked (-2) (s2p[nat pos := pos, nat src := -2]) fr"
      using slots_marked_update [of "-2" "s2p[nat pos := pos]" fr "nat src"] snf isrc by simp
    then have F2: "slots_marked (-2) (s2p[nat pos := pos, nat src := -2]) (fr @ [src])"
      using snf src l by (intro slots_marked_snoc) simp_all
    have Fb2: "\<forall>s\<in>set (fr @ [src]). nat s < length (s2p[nat pos := pos, nat src := -2])"
      using Fb src l by simp
    have "slots_marked (-1) (s2p[nat pos := pos]) rest"
      using slots_marked_update [OF R'(1), of "nat pos"] R'(2) ipos by simp
    then have R2: "slots_marked (-1) (s2p[nat pos := pos, nat src := -2]) rest"
      using slots_marked_update [of "-1" "s2p[nat pos := pos]" rest "nat src"] snr isrc by simp
    from m2 F2 Fb2 R2 show ?thesis by (simp add: new)
  qed
qed

lemma allocate_loop_tables:
  assumes "allocate_loop dbg ti (pm, zeros) ds = Inr (pm', zeros')"
    and "maps_ok n (m_piece_to_slot pm) (m_slot_to_piece pm)"
    and "slots_marked (-2) (m_slot_to_piece pm) (m_free_slots pm)"
    and "\<forall>s\<in>set (m_free_slots pm). nat s < length (m_slot_to_piece pm)"
    and "slots_marked (-1) (m_slot_to_piece pm) (ds @ rest)"
  shows "maps_ok n (m_piece_to_slot pm') (m_slot_to_piece pm')
       \<and> slots_marked (-2) (m_slot_to_piece pm') (m_free_slots pm')
       \<and> (\<forall>s\<in>set (m_free_slots pm'). nat s < length (m_slot_to_piece pm'))
       \<and> slots_marked (-1) (m_slot_to_piece pm') rest
       \<and> m_unallocated_slots pm' = m_unallocated_slots pm
       \<and> m_bytes_left pm' = m_bytes_left pm
       \<and> (\<forall>q. m_piece_to_slot pm ! q = -1 \<longrightarrow> m_piece_to_slot pm' ! q = -1)"
  using assms
proof (induction ds arbitrary: pm zeros)
  case Nil
  then show ?case by simp
next
  case (Cons pos ds)
  from Cons.prems(1) obtain pm1 z1 where
    a: "allocate_one dbg ti (pm, zeros) pos = Inr (pm1, z1)"
    and l: "allocate_loop dbg ti (pm1, z1) ds = Inr (pm', zeros')"
    by (auto split: sum.splits)
  from Cons.prems(5) have R: "slots_marked (-1) (m_slot_to_piece pm) (pos # (ds @ rest))"
    by simp
  from allocate_one_tables [OF a Cons.prems(2,3,4) R]
  have t: "maps_ok n (m_piece_to_slot pm1) (m_slot_to_piece pm1)"
    "slots_marked (-2) (m_slot_to_piece pm1) (m_free_slots pm1)"
    "\<forall>s\<in>set (m_free_slots pm1). nat s < length (m_slot_to_piece pm1)"
    "slots_marked (-1) (m_slot_to_piece pm1) (ds @ rest)"
    and e: "m_unallocated_slots pm1 = m_unallocated_slots pm" by simp_all
  from allocate_one_unfold [OF a] have b: "m_bytes_left pm1 = m_bytes_left pm"
    and k: "\<forall>q. m_piece_to_slot pm ! q = -1 \<longrightarrow> m_piece_to_slot pm1 ! q = -1"
    by (auto simp: nth_list_update)
  from Cons.IH [OF l t] e b k show ?case by simp
qed

lemma allocate_slots_unfold:
  assumes "allocate_slots dbg ti pm k = Inr pm'"
  shows "\<exists>pm1 z. allocate_loop dbg ti (pm, replicate (nat (piece_length ti)) 0)
                   (take (nat k) (m_unallocated_slots pm)) = Inr (pm1, z)
           \<and> pm' = pm1\<lparr>m_unallocated_slots :=
                   drop (length (take (nat k) (m_unallocated_slots pm))) (m_unallocated_slots pm1)\<rparr>"
  using assms unfolding allocate_slots_def Let_def
  by (auto split: sum.splits)

lemma allocate_slots_tables:
  assumes "allocate_slots dbg ti pm k = Inr pm'" and "tables_ok ti pm"
  shows "tables_ok ti pm' \<and> m_bytes_left pm' = m_bytes_left pm
       \<and> (\<forall>q. m_piece_to_slot pm ! q = -1 \<longrightarrow> m_piece_to_slot pm' ! q = -1)"
proof -
  define ds where "ds = take (nat k) (m_unallocated_slots pm)"
  define rest where "rest = drop (nat k) (m_unallocated_slots pm)"
  have un: "m_unallocated_slots pm = ds @ rest" by (simp add: ds_def rest_def)
  from allocate_slots_unfold [OF assms(1)] obtain pm1 z where
    l: "allocate_loop dbg ti (pm, replicate (nat (piece_length ti)) 0) ds = Inr (pm1, z)"
    and e: "pm' = pm1\<lparr>m_unallocated_slots := drop (length ds) (m_unallocated_slots pm1)\<rparr>"
    unfolding ds_def by blast
  from assms(2) have t: "maps_ok (nat (num_pieces ti)) (m_piece_to_slot pm) (m_slot_to_piece pm)"
    "slots_marked (-2) (m_slot_to_piece pm) (m_free_slots pm)"
    "\<forall>s\<in>set (m_free_slots pm). nat s < length (m_slot_to_piece pm)"
    "slots_marked (-1) (m_slot_to_piece pm) (ds @ rest)"
    by (simp_all add: tables_ok_def un)
  from allocate_loop_tables [OF l t]
  have r: "maps_ok (nat (num_pieces ti)) (m_piece_to_slot pm1) (m_slot_to_piece pm1)"
    "slots_marked (-2) (m_slot_to_piece pm1) (m_free_slots pm1)"
    "\<forall>s\<in>set (m_free_slots pm1). nat s < length (m_slot_to_piece pm1)"
    "slots_marked (-1) (m_slot_to_piece pm1) rest"
    "m_unallocated_slots pm1 = ds @ rest" "m_bytes_left pm1 = m_bytes_left pm"
    "\<forall>q. m_piece_to_slot pm ! q = -1 \<longrightarrow> m_piece_to_slot pm1 ! q = -1"
    by (simp_all add: un)
  have "drop (length ds) (m_unallocated_slots pm1) = rest" using r(5) by simp
  with r e have "tables_ok ti pm'" "m_bytes_left pm' = m_bytes_left pm"
    "\<forall>q. m_piece_to_slot pm ! q = -1 \<longrightarrow> m_piece_to_slot pm' ! q = -1"
    by (simp_all add: tables_ok_def)
  then show ?thesis by simp
qed

lemma choose_slot_spec:
  assumes "choose_slot dbg ti pm piece_index = Inr (pm2, c)" and "tables_ok ti pm"
  shows "\<exists>pm1. tables_ok ti pm1 \<and> c \<in> set (m_free_slots pm1)
       \<and> distinct (c # m_free_slots pm2) \<and> set (m_free_slots pm2) \<subseteq> set (m_free_slots pm1)
       \<and> m_piece_to_slot pm2 = m_piece_to_slot pm1 \<and> m_slot_to_piece pm2 = m_slot_to_piece pm1
       \<and> m_unallocated_slots pm2 = m_unallocated_slots pm1
       \<and> m_bytes_left pm2 = m_bytes_left pm
       \<and> (\<forall>q. m_piece_to_slot pm ! q = -1 \<longrightarrow> m_piece_to_slot pm1 ! q = -1)"
proof -
  have last_case: "\<exists>pm1. tables_ok ti pm1 \<and> c \<in> set (m_free_slots pm1)
       \<and> distinct (c # m_free_slots pm2) \<and> set (m_free_slots pm2) \<subseteq> set (m_free_slots pm1)
       \<and> m_piece_to_slot pm2 = m_piece_to_slot pm1 \<and> m_slot_to_piece pm2 = m_slot_to_piece pm1
       \<and> m_unallocated_slots pm2 = m_unallocated_slots pm1
       \<and> m_bytes_left pm2 = m_bytes_left pm
       \<and> (\<forall>q. m_piece_to_slot pm ! q = -1 \<longrightarrow> m_piece_to_slot pm1 ! q = -1)"
    if t: "tables_ok ti pm1" and ne: "m_free_slots pm1 \<noteq> []"
      and e: "pm2 = pm1\<lparr>m_free_slots := butlast (m_free_slots pm1)\<rparr>"
        "c = last (m_free_slots pm1)"
      and b: "m_bytes_left pm1 = m_bytes_left pm"
        "\<forall>q. m_piece_to_slot pm ! q = -1 \<longrightarrow> m_piece_to_slot pm1 ! q = -1"
    for pm1
  proof -
    from t have d: "distinct (m_free_slots pm1)" by (simp add: tables_ok_def slots_marked_def)
    have "m_free_slots pm1 = butlast (m_free_slots pm1) @ [last (m_free_slots pm1)]"
      using ne by simp
    with d have "distinct (butlast (m_free_slots pm1) @ [last (m_free_slots pm1)])" by simp
    then have "distinct (c # m_free_slots pm2)" by (simp add: e)
    moreover have "c \<in> set (m_free_slots pm1)" using ne by (simp add: e)
    moreover have "set (m_free_slots pm2) \<subseteq> set (m_free_slots pm1)"
      by (auto simp: e dest: in_set_butlastD)
    ultimately show ?thesis using t b by (intro exI [of _ pm1]) (simp add: e)
  qed
  show ?thesis
  proof (cases "piece_index \<in> set (m_free_slots pm)")
    case True
    with assms(1) have e: "pm2 = pm\<lparr>m_free_slots := remove1 piece_index (m_free_slots pm)\<rparr>"
      "c = piece_index"
      by (auto simp: choose_slot_def)
    from assms(2) have d: "distinct (m_free_slots pm)" by (simp add: tables_ok_def slots_marked_def)
    then have "distinct (c # m_free_slots pm2)" by (simp add: e)
    moreover have "set (m_free_slots pm2) \<subseteq> set (m_free_slots pm)"
      using d by (auto simp: e)
    ultimately show ?thesis using True assms(2) by (intro exI [of _ pm]) (simp add: e)
  next
    case False
    with assms(1) have ne: "m_free_slots pm \<noteq> []"
      and k: "(if last (m_free_slots pm) = num_pieces ti - 1
                        \<and> piece_index \<noteq> last (m_free_slots pm)
                then
                  (case (if length (m_free_slots pm) = 1 then allocate_slots dbg ti pm 5
                         else Inr pm) of
                     Inl e \<Rightarrow> Inl e
                   | Inr pm1 \<Rightarrow>
                       expect dbg (length (m_free_slots pm1) > 1)
                         (if m_free_slots pm1 = [] then Inl OutOfBounds
                          else Inr (pm1\<lparr>m_free_slots := butlast (m_free_slots pm1)\<rparr>,
                                    last (m_free_slots pm1))))
                else Inr (pm\<lparr>m_free_slots := butlast (m_free_slots pm)\<rparr>,
                          last (m_free_slots pm))) = Inr (pm2, c)"
      by (auto simp: choose_slot_def expect_def split: sum.splits if_splits)
    show ?thesis
    proof (cases "last (m_free_slots pm) = num_pieces ti - 1
                        \<and> piece_index \<noteq> last (m_free_slots pm)")
      case F2: False
      with k have "pm2 = pm\<lparr>m_free_slots := butlast (m_free_slots pm)\<rparr>"
        "c = last (m_free_slots pm)" by auto
      from last_case [OF assms(2) ne this] show ?thesis by simp
    next
      case True
      with k obtain pm1 where
        a: "(if length (m_free_slots pm) = 1 then allocate_slots dbg ti pm 5 else Inr pm)
            = Inr pm1"
        and ne1: "m_free_slots pm1 \<noteq> []"
        and e: "pm2 = pm1\<lparr>m_free_slots := butlast (m_free_slots pm1)\<rparr>"
          "c = last (m_free_slots pm1)"
        by (auto simp: expect_def split: sum.splits if_splits)
      have "tables_ok ti pm1 \<and> m_bytes_left pm1 = m_bytes_left pm
          \<and> (\<forall>q. m_piece_to_slot pm ! q = -1 \<longrightarrow> m_piece_to_slot pm1 ! q = -1)"
      proof (cases "length (m_free_slots pm) = 1")
        case True
        with a have "allocate_slots dbg ti pm 5 = Inr pm1" by simp
        from allocate_slots_tables [OF this assms(2)] show ?thesis .
      next
        case False
        with a assms(2) show ?thesis by simp
      qed
      then show ?thesis using last_case [OF _ ne1 e] by blast
    qed
  qed
qed

lemma case_sum_Inr_iff:
  "(case_sum Inl k r = Inr y) \<longleftrightarrow> (\<exists>x. r = Inr x \<and> k x = Inr y)"
  by (cases r) auto

lemma expect_Inr_iff: "(expect dbg c k = Inr y) \<longleftrightarrow> (dbg \<longrightarrow> c) \<and> k = Inr y"
  by (auto simp: expect_def)

lemma swap_pieces_unfold:
  assumes "swap_pieces dbg ti pm s2p p2s piece_index c q = Inr (pm', slot)"
  shows "0 \<le> q \<and> nat q < length p2s
       \<and> m_slot_to_piece pm' = s2p[nat piece_index := s2p ! nat c, nat c := s2p ! nat piece_index]
       \<and> m_piece_to_slot pm' = p2s[nat piece_index := p2s ! nat q, nat q := p2s ! nat piece_index]
       \<and> m_free_slots pm' = m_free_slots pm
       \<and> m_unallocated_slots pm' = m_unallocated_slots pm
       \<and> m_bytes_left pm' = m_bytes_left pm \<and> slot = piece_index"
proof -
  from assms obtain r buf d other where
    "storage_read dbg ti (m_storage pm) (replicate (nat (piece_length ti)) 0)
             piece_index 0 (piece_length ti) = Inr (r, buf)"
    "storage_write dbg ti (m_storage pm) buf c 0 (piece_length ti) = Inr d"
    and o: "at p2s q = Inr other"
    and e: "pm\<lparr>m_storage := d,
                            m_slot_to_piece :=
                              s2p[nat piece_index := s2p ! nat c,
                                  nat c := s2p ! nat piece_index],
                            m_piece_to_slot :=
                              p2s[nat piece_index := other,
                                  nat q := p2s ! nat piece_index]\<rparr> = pm'"
      "piece_index = slot"
    unfolding swap_pieces_def
    by (simp only: case_sum_Inr_iff split_paired_Ex prod.case sum.inject prod.inject) blast
  from at_Inr [OF o] have "0 \<le> q" "nat q < length p2s" "other = p2s ! nat q" by simp_all
  then show ?thesis unfolding e(1) [symmetric] e(2) by simp
qed

lemma assign_slot_unfold:
  assumes "assign_slot dbg ti pm piece_index c = Inr (pm', slot)"
  shows "\<exists>s2p p2s q. put (m_slot_to_piece pm) c piece_index = Inr s2p
       \<and> put (m_piece_to_slot pm) piece_index c = Inr p2s
       \<and> at s2p piece_index = Inr q
       \<and> (if c \<noteq> piece_index \<and> q \<ge> 0
           then swap_pieces dbg ti pm s2p p2s piece_index c q
           else Inr (pm\<lparr>m_slot_to_piece := s2p, m_piece_to_slot := p2s\<rparr>, c)) = Inr (pm', slot)"
  using assms unfolding assign_slot_def
  by (simp add: case_sum_Inr_iff expect_Inr_iff) (auto split: if_splits)

lemma assign_slot_tables:
  assumes "assign_slot dbg ti pm piece_index c = Inr (pm', slot)"
    and "maps_ok n (m_piece_to_slot pm) (m_slot_to_piece pm)"
    and "slots_marked (-2) (m_slot_to_piece pm) (m_free_slots pm)"
    and "\<forall>s\<in>set (m_free_slots pm). nat s < length (m_slot_to_piece pm)"
    and "slots_marked (-1) (m_slot_to_piece pm) (m_unallocated_slots pm)"
    and "c \<notin> set (m_free_slots pm)" and "m_slot_to_piece pm ! nat c = -2"
    and "m_piece_to_slot pm ! nat piece_index = -1"
  shows "maps_ok n (m_piece_to_slot pm') (m_slot_to_piece pm')
       \<and> slots_marked (-2) (m_slot_to_piece pm') (m_free_slots pm')
       \<and> (\<forall>s\<in>set (m_free_slots pm'). nat s < length (m_slot_to_piece pm'))
       \<and> slots_marked (-1) (m_slot_to_piece pm') (m_unallocated_slots pm')
       \<and> m_bytes_left pm' = m_bytes_left pm
       \<and> m_piece_to_slot pm' ! nat piece_index = slot"
proof -
  define p2s where "p2s = m_piece_to_slot pm"
  define s2p where "s2p = m_slot_to_piece pm"
  define fr where "fr = m_free_slots pm"
  define un where "un = m_unallocated_slots pm"
  define p where "p = nat piece_index"
  define k where "k = nat c"
  note m = assms(2) [folded p2s_def s2p_def]
  note F = assms(3) [folded s2p_def fr_def]
  note Fb = assms(4) [folded s2p_def fr_def]
  note U = assms(5) [folded s2p_def un_def]
  have l: "length p2s = n" "length s2p = n" using maps_ok_length [OF m] by simp_all
  from assign_slot_unfold [OF assms(1)] obtain s2p1 p2s1 q where
    p1: "put s2p c piece_index = Inr s2p1"
    and p2: "put p2s piece_index c = Inr p2s1"
    and a: "at s2p1 piece_index = Inr q"
    and r: "(if c \<noteq> piece_index \<and> q \<ge> 0
           then swap_pieces dbg ti pm s2p1 p2s1 piece_index c q
           else Inr (pm\<lparr>m_slot_to_piece := s2p1, m_piece_to_slot := p2s1\<rparr>, c)) = Inr (pm', slot)"
    unfolding p2s_def s2p_def by blast
  from put_Inr [OF p1] put_Inr [OF p2] at_Inr [OF a] l
  have b: "0 \<le> c" "k < n" "0 \<le> piece_index" "p < n"
    and s2p1: "s2p1 = s2p[k := piece_index]" and p2s1: "p2s1 = p2s[p := c]"
    and q: "q = s2p1 ! p"
    by (simp_all add: k_def p_def)
  have ic: "int k = c" and ip: "int p = piece_index" using b by (simp_all add: k_def p_def)
  have sk: "s2p ! k = -2" using assms(7) by (simp add: s2p_def k_def)
  have pp: "p2s ! p = -1" using assms(8) by (simp add: p2s_def p_def)
  have cnu: "c \<notin> set un"
  proof
    assume "c \<in> set un"
    from slots_marked_nth(1) [OF U this] b l sk show False by (simp add: k_def)
  qed
  have cnf: "c \<notin> set fr" using assms(6) by (simp add: fr_def)
  from maps_ok_assign [OF m b(4) b(2) pp] sk
  have m1: "maps_ok n (p2s[p := c]) (s2p[k := piece_index])" by (simp add: ic ip)
  have F1: "slots_marked (-2) (s2p[k := piece_index]) fr"
    using slots_marked_update [OF F, of k] cnf ic by simp
  have U1: "slots_marked (-1) (s2p[k := piece_index]) un"
    using slots_marked_update [OF U, of k] cnu ic by simp
  show ?thesis
  proof (cases "c \<noteq> piece_index \<and> q \<ge> 0")
    case False
    with r have e: "pm' = pm\<lparr>m_slot_to_piece := s2p1, m_piece_to_slot := p2s1\<rparr>" "slot = c"
      by auto
    from m1 F1 U1 Fb b l show ?thesis
      by (simp add: e s2p1 p2s1 fr_def [symmetric] un_def [symmetric] p_def [symmetric])
  next
    case True
    then have ne: "k \<noteq> p" using b by (auto simp: k_def p_def)
    with r True have sw: "swap_pieces dbg ti pm s2p1 p2s1 piece_index c q = Inr (pm', slot)"
      by simp
    note u = swap_pieces_unfold [OF sw, folded p_def k_def fr_def un_def]
    define j where "j = nat q"
    have q': "q = s2p ! p" using q s2p1 ne by simp
    from True q' have "0 \<le> s2p ! p" by simp
    with m b have j: "j < n" "p2s ! j = int p"
      by (auto simp: maps_ok_def j_def q')
    have ij: "int j = q" using True by (simp add: j_def)
    have jp: "j \<noteq> p" using j(2) pp by auto
    have new: "m_slot_to_piece pm' = s2p[p := piece_index, k := q]"
      "m_piece_to_slot pm' = p2s[p := piece_index, j := c]"
      "m_free_slots pm' = fr" "m_unallocated_slots pm' = un" "m_bytes_left pm' = m_bytes_left pm"
      "slot = piece_index"
    proof -
      have "s2p1 ! k = piece_index" "s2p1 ! p = q" using s2p1 b l q by simp_all
      then have "m_slot_to_piece pm' = s2p[k := piece_index, p := piece_index, k := q]"
        using u s2p1 by simp
      also have "\<dots> = s2p[p := piece_index, k := q]"
        using ne by (simp add: list_update_swap)
      finally show "m_slot_to_piece pm' = s2p[p := piece_index, k := q]" .
      have "p2s1 ! j = int p" "p2s1 ! p = c" using p2s1 jp j b l by simp_all
      then have "m_piece_to_slot pm' = p2s[p := c, p := piece_index, j := c]"
        using u p2s1 ip by (simp add: j_def)
      then show "m_piece_to_slot pm' = p2s[p := piece_index, j := c]" by simp
    qed (use u in simp_all)
    have "p2s ! j = int p" by (rule j(2))
    from maps_ok_unassign [OF m j(1) this, of "-2"]
    have mA: "maps_ok n (p2s[j := -1]) (s2p[p := -2])" by simp
    have "p2s[j := -1] ! j = -1" using j l by simp
    moreover have "s2p[p := -2] ! k < 0" using ne sk by simp
    ultimately have mB: "maps_ok n (p2s[j := int k]) (s2p[p := -2, k := int j])"
      using maps_ok_assign [OF mA j(1) b(2)] by simp
    have "p2s[j := int k] ! p = -1" using jp pp by simp
    moreover have "s2p[p := -2, k := int j] ! p < 0" using ne b l by simp
    ultimately have "maps_ok n (p2s[j := int k, p := int p]) (s2p[p := -2, k := int j, p := int p])"
      using maps_ok_assign [OF mB b(4) b(4)] by simp
    moreover have "p2s[j := int k, p := int p] = p2s[p := piece_index, j := c]"
      using jp by (simp add: list_update_swap ic ip)
    moreover have "s2p[p := -2, k := int j, p := int p] = s2p[p := piece_index, k := q]"
      using ne by (simp add: list_update_swap ij ip)
    ultimately have m2: "maps_ok n (p2s[p := piece_index, j := c]) (s2p[p := piece_index, k := q])"
      by simp
    have sp: "s2p ! p = q" using q' by simp
    have pnf: "piece_index \<notin> set fr"
    proof
      assume "piece_index \<in> set fr"
      from slots_marked_nth(1) [OF F this] b l sp True show False by (simp add: p_def)
    qed
    have pnu: "piece_index \<notin> set un"
    proof
      assume "piece_index \<in> set un"
      from slots_marked_nth(1) [OF U this] b l sp True show False by (simp add: p_def)
    qed
    have "slots_marked (-2) (s2p[p := piece_index]) fr"
      using slots_marked_update [OF F, of p] pnf ip by simp
    then have F2: "slots_marked (-2) (s2p[p := piece_index, k := q]) fr"
      using slots_marked_update [of "-2" "s2p[p := piece_index]" fr k] cnf ic by simp
    have "slots_marked (-1) (s2p[p := piece_index]) un"
      using slots_marked_update [OF U, of p] pnu ip by simp
    then have U2: "slots_marked (-1) (s2p[p := piece_index, k := q]) un"
      using slots_marked_update [of "-1" "s2p[p := piece_index]" un k] cnu ic by simp
    have "p2s[p := piece_index, j := c] ! p = piece_index" using jp b l by simp
    with m2 F2 U2 Fb show ?thesis by (simp add: new p_def [symmetric])
  qed
qed

subsection \<open>The invariants after every operation\<close>

lemma slot_for_piece_tables:
  assumes "slot_for_piece dbg ti pm piece_index = Inr (pm', slot)" and "tables_ok ti pm"
  shows "tables_ok ti pm' \<and> m_bytes_left pm' = m_bytes_left pm
       \<and> m_piece_to_slot pm' ! nat piece_index = slot"
proof -
  from assms(1) obtain s where s: "at (m_piece_to_slot pm) piece_index = Inr s"
    and k: "(if s \<noteq> -1 then
                 expect dbg (s \<ge> 0)
                   (expect dbg (s < int (length (m_slot_to_piece pm)))
                      (Inr (pm, s)))
               else
                 (case (if m_free_slots pm = [] then allocate_slots dbg ti pm 5 else Inr pm) of
                    Inl e \<Rightarrow> Inl e
                  | Inr pm1 \<Rightarrow>
                      expect dbg (m_free_slots pm1 \<noteq> [])
                        (case choose_slot dbg ti pm1 piece_index of
                           Inl e \<Rightarrow> Inl e
                         | Inr (pm2, chosen) \<Rightarrow> assign_slot dbg ti pm2 piece_index chosen)))
            = Inr (pm', slot)"
    unfolding slot_for_piece_def
    by (simp add: case_sum_Inr_iff expect_Inr_iff) blast
  note sp = at_Inr [OF s]
  show ?thesis
  proof (cases "s = -1")
    case False
    with k have "pm' = pm" "slot = s" by (auto simp: expect_Inr_iff)
    with assms(2) sp show ?thesis by simp
  next
    case True
    with k obtain pm1 pm2 c where
      a: "(if m_free_slots pm = [] then allocate_slots dbg ti pm 5 else Inr pm) = Inr pm1"
      and ch: "choose_slot dbg ti pm1 piece_index = Inr (pm2, c)"
      and as: "assign_slot dbg ti pm2 piece_index c = Inr (pm', slot)"
      by (simp add: case_sum_Inr_iff expect_Inr_iff) blast
    have t1: "tables_ok ti pm1 \<and> m_bytes_left pm1 = m_bytes_left pm
          \<and> (\<forall>q. m_piece_to_slot pm ! q = -1 \<longrightarrow> m_piece_to_slot pm1 ! q = -1)"
    proof (cases "m_free_slots pm = []")
      case True
      with a have "allocate_slots dbg ti pm 5 = Inr pm1" by simp
      from allocate_slots_tables [OF this assms(2)] show ?thesis .
    next
      case False
      with a assms(2) show ?thesis by simp
    qed
    then have t1': "tables_ok ti pm1" by simp
    from choose_slot_spec [OF ch t1'] obtain pmx where
      tx: "tables_ok ti pmx" and cx: "c \<in> set (m_free_slots pmx)"
      and d: "distinct (c # m_free_slots pm2)" "set (m_free_slots pm2) \<subseteq> set (m_free_slots pmx)"
      and e: "m_piece_to_slot pm2 = m_piece_to_slot pmx" "m_slot_to_piece pm2 = m_slot_to_piece pmx"
        "m_unallocated_slots pm2 = m_unallocated_slots pmx" "m_bytes_left pm2 = m_bytes_left pm1"
      and u: "\<forall>q. m_piece_to_slot pm1 ! q = -1 \<longrightarrow> m_piece_to_slot pmx ! q = -1"
      by blast
    from tx have X: "maps_ok (nat (num_pieces ti)) (m_piece_to_slot pmx) (m_slot_to_piece pmx)"
      "slots_marked (-2) (m_slot_to_piece pmx) (m_free_slots pmx)"
      "\<forall>s\<in>set (m_free_slots pmx). nat s < length (m_slot_to_piece pmx)"
      "slots_marked (-1) (m_slot_to_piece pmx) (m_unallocated_slots pmx)"
      by (simp_all add: tables_ok_def)
    have F2: "slots_marked (-2) (m_slot_to_piece pm2) (m_free_slots pm2)"
      using X(2) d by (auto simp: slots_marked_def e)
    have Fb2: "\<forall>s\<in>set (m_free_slots pm2). nat s < length (m_slot_to_piece pm2)"
      using X(3) d by (auto simp: e)
    have cn: "c \<notin> set (m_free_slots pm2)" using d by simp
    have ck: "m_slot_to_piece pm2 ! nat c = -2"
      using slots_marked_nth(1) [OF X(2) cx] X(3) cx by (simp add: e)
    have pu: "m_piece_to_slot pm2 ! nat piece_index = -1"
      using sp True t1 u by (simp add: e)
    from assign_slot_tables [OF as X(1) [folded e] F2 Fb2 X(4) [folded e] cn ck pu]
    show ?thesis using e t1 by (simp add: tables_ok_def)
  qed
qed

lemma write_tables:
  assumes "piece_manager_write dbg ti pm buf piece_index offset sz = Inr pm'"
    and "tables_ok ti pm"
  shows "tables_ok ti pm' \<and> m_bytes_left pm' = m_bytes_left pm"
proof -
  from assms(1) obtain pm1 slot d where
    s: "slot_for_piece dbg ti pm piece_index = Inr (pm1, slot)"
    and e: "pm' = pm1\<lparr>m_storage := d\<rparr>"
    unfolding piece_manager_write_def
    by (simp add: case_sum_Inr_iff) blast
  from slot_for_piece_tables [OF s assms(2)] show ?thesis
    by (simp add: e tables_ok_def)
qed

lemma reachable_tables:
  assumes "reachable sha1 dbg ti have0 st"
  shows "tables_ok ti (fst st)"
  using assms
proof (induction rule: reachable.induct)
  case (checked d pm0 aborts pm "have")
  from check_pieces_tables [OF checked(2) [unfolded piece_manager_new_impl [OF checked(1)]]]
  show ?case by simp
next
  case (written pm "have" buf piece_index offset sz pm')
  from write_tables [OF written(2)] written(3) show ?case by simp
next
  case (allocated pm "have" num_slots pm')
  from allocate_slots_tables [OF allocated(2)] allocated(3) show ?case by simp
qed

lemma tables_ok_inverse:
  assumes "tables_ok ti pm"
  shows "inverse_consistent pm"
proof -
  define n where "n = nat (num_pieces ti)"
  from assms have m: "maps_ok n (m_piece_to_slot pm) (m_slot_to_piece pm)"
    by (simp add: tables_ok_def n_def)
  note l = maps_ok_length [OF m]
  have "nat (m_piece_to_slot pm ! p) < length (m_slot_to_piece pm)
          \<and> m_slot_to_piece pm ! nat (m_piece_to_slot pm ! p) = int p"
    if "p < length (m_piece_to_slot pm)" "0 \<le> m_piece_to_slot pm ! p" for p
  proof -
    from that have "p < n" "m_piece_to_slot pm ! p \<noteq> -1" using l by auto
    with m l show ?thesis by (auto simp: maps_ok_def)
  qed
  then show ?thesis by (simp add: inverse_consistent_def)
qed

text \<open>
  Claim C2. After the constructor and \<^verbatim>\<open>check_pieces\<close>, and after any number of
  \<^verbatim>\<open>write\<close> (which calls \<^verbatim>\<open>slot_for_piece\<close>) and \<^verbatim>\<open>allocate_slots\<close> that return,
  with assertions on or off and whatever the files hold: if \<^verbatim>\<open>piece_to_slot[p]\<close> is a
  slot \<open>s \<ge> 0\<close> then \<^verbatim>\<open>slot_to_piece[s] = p\<close>.
\<close>

theorem C2_inverse_consistent:
  assumes "reachable sha1 dbg ti have0 (pm, hv)"
  shows "inverse_consistent pm"
  using reachable_tables [OF assms] tables_ok_inverse by simp

lemma reachable_bytes:
  assumes "reachable sha1 dbg ti (replicate (nat (num_pieces ti)) False) st"
    and "0 < num_pieces ti"
  shows "length (snd st) = nat (num_pieces ti) \<and> m_bytes_left (fst st) = missing_bytes ti (snd st)"
  using assms
proof (induction rule: reachable.induct)
  case (checked d pm0 aborts pm "have")
  from check_pieces_bytes [OF checked(2) [unfolded piece_manager_new_impl [OF checked(1)]]
    checked(3)]
  show ?case by simp
next
  case (written pm "have" buf piece_index offset sz pm')
  have "tables_ok ti pm" using reachable_tables [OF written(1)] by simp
  from write_tables [OF written(2) this] written(3,4) show ?case by simp
next
  case (allocated pm "have" num_slots pm')
  have "tables_ok ti pm" using reachable_tables [OF allocated(1)] by simp
  from allocate_slots_tables [OF allocated(2) this] allocated(3,4) show ?case by simp
qed

text \<open>
  Claim C8. When \<^verbatim>\<open>check_pieces\<close> is given a vector \<^verbatim>\<open>pieces\<close> that is all false, then
  after it returns, and after any number of \<^verbatim>\<open>write\<close> and \<^verbatim>\<open>allocate_slots\<close> that
  return, \<^verbatim>\<open>m_bytes_left\<close> is the sum of \<open>piece_size(p)\<close> over the pieces \<open>p\<close> that
  are not marked in \<^verbatim>\<open>pieces\<close>. (The torrent has at least one piece, and \<open>total_size\<close>
  is the sum of the piece sizes, as \<open>piece_size\<close> defines the last one.)
\<close>

theorem C8_bytes_left_is_missing_bytes:
  assumes "reachable sha1 dbg ti (replicate (nat (num_pieces ti)) False) (pm, hv)"
    and "0 < num_pieces ti"
  shows "m_bytes_left pm = missing_bytes ti hv"
  using reachable_bytes [OF assms] by simp

theorem C2_witness:
  "\<exists>pm hv pm'.
     check_pieces plain_digest False twin_pieces (impl disk_twin) [False, False, False] []
       = Inr (pm, hv)
     \<and> tables pm = ([-1, 0, 2], [1, -2, 2], [1], [])
     \<and> piece_manager_write False twin_pieces pm [8, 8] 0 0 2 = Inr pm'
     \<and> tables pm' = ([0, 1, 2], [0, 1, 2], [], [])
     \<and> reachable plain_digest False twin_pieces [False, False, False] (pm', hv)
     \<and> inverse_consistent pm'"
proof -
  have n: "piece_manager_new False twin_pieces disk_twin = Inr (impl disk_twin)"
    by (simp add: piece_manager_new_def expect_def)
  have "\<not> isl (check_pieces plain_digest False twin_pieces (impl disk_twin)
                  [False, False, False] [])"
    by code_simp
  then obtain pm hv where
    c: "check_pieces plain_digest False twin_pieces (impl disk_twin) [False, False, False] []
        = Inr (pm, hv)"
    by (cases "check_pieces plain_digest False twin_pieces (impl disk_twin)
                 [False, False, False] []") auto
  have "\<not> isl (and_then (check_pieces plain_digest False twin_pieces (impl disk_twin)
                  [False, False, False] [])
           (\<lambda>(pm, hv). piece_manager_write False twin_pieces pm [8, 8] 0 0 2))"
    by code_simp
  with c obtain pm' where w: "piece_manager_write False twin_pieces pm [8, 8] 0 0 2 = Inr pm'"
    by (cases "piece_manager_write False twin_pieces pm [8, 8] 0 0 2")
       (auto simp: and_then_def)
  have "and_then (check_pieces plain_digest False twin_pieces (impl disk_twin)
                  [False, False, False] [])
           (\<lambda>(pm, hv). and_then (piece_manager_write False twin_pieces pm [8, 8] 0 0 2)
              (\<lambda>pm'. Inr (tables pm, tables pm')))
        = Inr (([-1, 0, 2], [1, -2, 2], [1], []), ([0, 1, 2], [0, 1, 2], [], []))"
    by code_simp
  with c w have t: "tables pm = ([-1, 0, 2], [1, -2, 2], [1], [])"
    "tables pm' = ([0, 1, 2], [0, 1, 2], [], [])"
    by (simp_all add: and_then_def)
  have r: "reachable plain_digest False twin_pieces [False, False, False] (pm', hv)"
    by (rule reachable.written [OF reachable.checked [OF n c] w])
  from C2_inverse_consistent [OF r] c w t r show ?thesis by blast
qed

theorem C8_witness:
  "\<exists>pm hv.
     check_pieces plain_digest True one_file (impl disk_piece_1_first)
       (replicate (nat (num_pieces one_file)) False) [] = Inr (pm, hv)
     \<and> 0 < num_pieces one_file
     \<and> hv = [False, True, False] \<and> m_bytes_left pm = 3 \<and> missing_bytes one_file hv = 3"
proof -
  have "\<not> isl (check_pieces plain_digest True one_file (impl disk_piece_1_first)
       (replicate (nat (num_pieces one_file)) False) [])"
    by code_simp
  then obtain pm hv where
    c: "check_pieces plain_digest True one_file (impl disk_piece_1_first)
       (replicate (nat (num_pieces one_file)) False) [] = Inr (pm, hv)"
    by (cases "check_pieces plain_digest True one_file (impl disk_piece_1_first)
       (replicate (nat (num_pieces one_file)) False) []") auto
  have n: "0 < num_pieces one_file" by (simp add: one_file_def)
  have m: "piece_manager_new True one_file disk_piece_1_first = Inr (impl disk_piece_1_first)"
    by (simp add: piece_manager_new_def expect_def one_file_def)
  have "map_sum id (\<lambda>(pm, hv). (hv, m_bytes_left pm))
          (check_pieces plain_digest True one_file (impl disk_piece_1_first)
             (replicate (nat (num_pieces one_file)) False) [])
        = Inr ([False, True, False], 3)"
    by code_simp
  with c have v: "hv = [False, True, False]" "m_bytes_left pm = 3" by simp_all
  have r: "reachable plain_digest True one_file (replicate (nat (num_pieces one_file)) False)
             (pm, hv)"
    by (rule reachable.checked [OF m c])
  from C8_bytes_left_is_missing_bytes [OF r n] c n v show ?thesis by simp
qed

end
